theory Spec2Isabelle
  imports Complex_Main "HOL-Library.Log_Nat" "HOL-Library.Multiset"
begin

section \<open>JavaScript numbers: binary64 arithmetic\<close>

text \<open>
  The scores of \<^verbatim>\<open>SuggestionPanel.tsx\<close> are JavaScript numbers, that is IEEE 754
  binary64 values, and \<^verbatim>\<open>0.7\<close>, \<^verbatim>\<open>0.3\<close> are not representable. A finite
  number is modelled by the rational it denotes; every arithmetic operation computes the
  exact rational result and rounds it to the nearest double, ties to the even significand
  (\<open>fl\<close>). A double is a multiple of \<open>2^e\<close> with a significand of at most 53 bits, where
  \<open>e\<close> is at least \<open>-1074\<close>: below \<open>2^-1022\<close> the doubles are the multiples of the
  smallest positive one, \<open>2^-1074\<close> (the subnormal numbers), and a result of less than
  half of it is zero. Zero has no sign in the model: the two zeros of binary64 are equal
  in every comparison that the code makes.

  NaN and the infinities are not values of the type. JSON cannot carry them, and the
  arithmetic of the code produces them from finite numbers only by overflow, when the
  exact result reaches \<open>2^1024 - 2^970\<close>. The score of two finite doubles never does
  (lemma \<open>getCombinedScore_finite\<close>). The difference of two scores in the comparator of
  the sort may; the program then computes an infinity, of which the sort reads the sign.
  \<open>fl\<close> leaves the exponent unbounded above, so that such a difference keeps its sign.
\<close>

type_synonym number = rat

definition round_even :: "rat \<Rightarrow> int" where
  "round_even y = (let f = \<lfloor>y\<rfloor>; d = y - of_int f in
     if d < 1/2 then f else if 1/2 < d then f + 1 else if even f then f else f + 1)"

text \<open>\<open>ilog2 x\<close> is the binary exponent of a positive \<open>x\<close>: \<open>2^k \<le> x < 2^(k+1)\<close>.\<close>

definition ilog2 :: "rat \<Rightarrow> int" where
  "ilog2 x = (let (p, q) = quotient_of x; d = bitlen p - bitlen q
              in if 2 powi d \<le> x then d else d - 1)"

definition fl :: "rat \<Rightarrow> number" where
  "fl x = (if x = 0 then 0 else
     let e = max (ilog2 \<bar>x\<bar> - 52) (- 1074) in
       of_int (round_even (x / 2 powi e)) * 2 powi e)"

text \<open>
  The smallest positive double (\<^verbatim>\<open>Number.MIN_VALUE\<close>) and the largest finite one
  (\<^verbatim>\<open>Number.MAX_VALUE\<close>).
\<close>

definition min_double :: number where
  "min_double = 2 powi (- 1074)"

definition max_double :: number where
  "max_double = (2 ^ 53 - 1) * 2 ^ 971"

definition fmul :: "number \<Rightarrow> number \<Rightarrow> number" where
  "fmul x y = fl (x * y)"

definition fadd :: "number \<Rightarrow> number \<Rightarrow> number" where
  "fadd x y = fl (x + y)"

definition fsub :: "number \<Rightarrow> number \<Rightarrow> number" where
  "fsub x y = fl (x - y)"

text \<open>
  The doubles lie on the grid of the multiples of \<open>min_double\<close>. The property is used in
  the proofs only: the difference of two distinct values of the grid is at least
  \<open>min_double\<close> in magnitude and does not round to zero.
\<close>

definition on_grid :: "rat \<Rightarrow> bool" where
  "on_grid x = (\<exists>m::int. x = of_int m * min_double)"


section \<open>The combined score (SuggestionPanel.tsx)\<close>

text \<open>
  \<^verbatim>\<open>function getCombinedScore(skillMatchPct, calendarPct) {
    return calendarPct * 0.7 + skillMatchPct * 0.3; }\<close>
  The literals are the doubles nearest to 7/10 and 3/10; both products and the sum round.
\<close>

definition getCombinedScore :: "number \<Rightarrow> number \<Rightarrow> number" where
  "getCombinedScore skillMatchPct calendarPct =
     fadd (fmul calendarPct (fl (7/10))) (fmul skillMatchPct (fl (3/10)))"


section \<open>The data of the dashboard (lib/types.ts)\<close>

text \<open>
  The interfaces \<^verbatim>\<open>Suggestion\<close>, \<^verbatim>\<open>Task\<close>, \<^verbatim>\<open>DataSourceSignal\<close> and
  \<^verbatim>\<open>TeamMember\<close>, with the fields the ranking code reads or copies. The field
  \<^verbatim>\<open>id\<close> of a member is \<open>tm_id\<close> and that of a task is \<open>task_id\<close>, since \<open>id\<close>
  is the identity function of HOL.
\<close>

datatype TaskStatus = AtRisk | Unassigned | Covered

datatype LeaveStatus = LeaveAvailable | LeaveOOO

record Suggestion =
  memberId :: string
  skillMatchPct :: number
  workloadPct :: number
  contextReason :: string

record Task =
  task_id :: string
  title :: string
  assigneeId :: "string option"
  projectName :: string
  status :: TaskStatus
  suggestions :: "Suggestion list"

record DataSourceSignal =
  calendarPct :: number
  leaveStatus :: LeaveStatus

record TeamMember =
  tm_id :: string
  tm_name :: string
  role :: string
  dataSources :: DataSourceSignal
  isOOO :: bool
  managerNotes :: "string option"


section \<open>Ranking the suggestions of a task (SuggestionPanel.tsx)\<close>

text \<open>
  \<^verbatim>\<open>(members ?? []).find((m) => m.id === s.memberId)\<close>: the first member with
  that id, \<open>None\<close> for \<^verbatim>\<open>undefined\<close>. The roster itself may still be undefined
  (not loaded), which \<^verbatim>\<open>??\<close> turns into the empty list.
\<close>

definition find_member :: "TeamMember list option \<Rightarrow> string \<Rightarrow> TeamMember option" where
  "find_member members mid =
     List.find (\<lambda>m. tm_id m = mid) (case members of None \<Rightarrow> [] | Some ms \<Rightarrow> ms)"

text \<open>
  \<^verbatim>\<open>{ ...s, _combined: getCombinedScore(s.skillMatchPct, calPct) }\<close> with
  \<^verbatim>\<open>calPct = member?.dataSources.calendarPct ?? 0\<close>. The field \<^verbatim>\<open>_combined\<close>
  is \<open>combined\<close>.
\<close>

record RankedSuggestion = Suggestion +
  combined :: number

definition with_combined :: "TeamMember list option \<Rightarrow> Suggestion \<Rightarrow> RankedSuggestion" where
  "with_combined members s =
     (let member = find_member members (memberId s);
          calPct = (case member of None \<Rightarrow> 0 | Some m \<Rightarrow> calendarPct (dataSources m))
      in \<lparr>memberId = memberId s, skillMatchPct = skillMatchPct s,
          workloadPct = workloadPct s, contextReason = contextReason s,
          combined = getCombinedScore (skillMatchPct s) calPct\<rparr>)"

text \<open>
  \<^verbatim>\<open>Array.prototype.sort(cmp)\<close> is stable (ECMAScript 2019): \<open>x\<close> moves behind \<open>y\<close>
  only if \<open>cmp x y > 0\<close>, and of the result of the comparator only the sign is read.
  For a comparator that is a consistent ordering the result does not depend on the
  engine's algorithm; it is modelled as a stable insertion sort, each element inserted
  in front of the already sorted rest of the array.
\<close>

fun js_insert :: "('a \<Rightarrow> 'a \<Rightarrow> number) \<Rightarrow> 'a \<Rightarrow> 'a list \<Rightarrow> 'a list" where
  "js_insert cmp x [] = [x]"
| "js_insert cmp x (y # ys) = (if 0 < cmp x y then y # js_insert cmp x ys else x # y # ys)"

definition js_sort :: "('a \<Rightarrow> 'a \<Rightarrow> number) \<Rightarrow> 'a list \<Rightarrow> 'a list" where
  "js_sort cmp xs = foldr (js_insert cmp) xs []"

text \<open>
  \<^verbatim>\<open>const sortedSuggestions = [...task.suggestions].map(...)
      .sort((a, b) => b._combined - a._combined);\<close>
\<close>

definition sortedSuggestions :: "TeamMember list option \<Rightarrow> Task \<Rightarrow> RankedSuggestion list" where
  "sortedSuggestions members task =
     js_sort (\<lambda>a b. fsub (combined b) (combined a))
       (map (with_combined members) (suggestions task))"

text \<open>
  The rows of the list: \<^verbatim>\<open>sortedSuggestions.map((s, i) => { const member = ...;
  if (!member) return null; return <SuggestionRow suggestion={s} member={member}
  rank={i} .../> })\<close>. A \<^verbatim>\<open>null\<close> entry renders nothing. Of the properties of a row
  the suggestion, the member and the rank are kept.
\<close>

record SuggestionRowProps =
  row_suggestion :: RankedSuggestion
  row_member :: TeamMember
  row_rank :: nat

definition suggestion_rows ::
  "TeamMember list option \<Rightarrow> RankedSuggestion list \<Rightarrow> SuggestionRowProps option list" where
  "suggestion_rows members rows =
     map (\<lambda>(i, s). case find_member members (memberId s) of
                      None \<Rightarrow> None
                    | Some m \<Rightarrow> Some \<lparr>row_suggestion = s, row_member = m, row_rank = i\<rparr>)
       (enumerate 0 rows)"

text \<open>
  The component \<^verbatim>\<open>SuggestionPanel\<close>. It reads \<^verbatim>\<open>selectedTaskId\<close>,
  \<^verbatim>\<open>taskStatusOverrides\<close> and \<^verbatim>\<open>pipelineRunning\<close> of the store, the tasks and the
  members (both undefined until loaded), and returns one of three views:

  \<^verbatim>\<open>const task = (tasks ?? []).find((t) => t.id === selectedTaskId);
  if (!selectedTaskId) return <"Select a task to triage">;
  if (!task) return <Loader2/>;
  const currentStatus = taskStatusOverrides[selectedTaskId] ?? task.status;
  const isCovered = currentStatus === 'covered';
  const isRunning = pipelineRunning[selectedTaskId] ?? false;
  ...
  {!isCovered && !isRunning && (
     sortedSuggestions.length > 0 ? <the rows> : <"Scoring candidates">)}\<close>

  The empty string is falsy, as \<^verbatim>\<open>null\<close> is. Of the panel of a task the model keeps
  the part that holds the suggestions: nothing for a task that is covered or being
  re-scored, the placeholder for an empty list, the rows otherwise.
\<close>

record AppStore =
  selectedTaskId :: "string option"
  taskStatusOverrides :: "string \<rightharpoonup> TaskStatus"
  pipelineRunning :: "string \<rightharpoonup> bool"

datatype SuggestionsView = Hidden | ScoringCandidates | Rows "SuggestionRowProps list"

datatype PanelView = SelectATask | Loader | Panel SuggestionsView

definition SuggestionPanel ::
  "AppStore \<Rightarrow> Task list option \<Rightarrow> TeamMember list option \<Rightarrow> PanelView" where
  "SuggestionPanel store tasks members =
     (case selectedTaskId store of
        None \<Rightarrow> SelectATask
      | Some sid \<Rightarrow>
          if sid = [] then SelectATask
          else
            (case List.find (\<lambda>t. task_id t = sid) (case tasks of None \<Rightarrow> [] | Some ts \<Rightarrow> ts) of
               None \<Rightarrow> Loader
             | Some task \<Rightarrow>
                 let currentStatus =
                       (case taskStatusOverrides store sid of None \<Rightarrow> status task | Some st \<Rightarrow> st);
                     isCovered = (currentStatus = Covered);
                     isRunning = (case pipelineRunning store sid of None \<Rightarrow> False | Some b \<Rightarrow> b);
                     ranked = sortedSuggestions members task
                 in Panel (if \<not> isCovered \<and> \<not> isRunning
                           then (if 0 < length ranked
                                 then Rows (List.map_filter (\<lambda>r. r) (suggestion_rows members ranked))
                                 else ScoringCandidates)
                           else Hidden)))"

text \<open>The rows that the component renders: those of the view, none for any other view.\<close>

definition rendered_rows ::
  "AppStore \<Rightarrow> Task list option \<Rightarrow> TeamMember list option \<Rightarrow> SuggestionRowProps list" where
  "rendered_rows store tasks members =
     (case SuggestionPanel store tasks members of Panel (Rows rs) \<Rightarrow> rs | _ \<Rightarrow> [])"


section \<open>Merging the skill scores into the suggestions (load_tasks)\<close>

text \<open>
  \<^verbatim>\<open>for task in tasks:
      task_scores = scores.get(task["id"], {})
      for s in task["suggestions"]:
          scored = task_scores.get(s["memberId"])
          if scored:
              s["skillMatchPct"] = scored["skillMatchPct"]
              s["contextReason"] = scored["contextReason"]\<close>
  The parsed tasks and the contents of \<^verbatim>\<open>skill_scores.json\<close> are parameters; a
  missing file is the empty map. An entry that is present is an object with both keys
  (a non-empty dict, which is truthy).
\<close>

record ScoredEntry =
  scored_skillMatchPct :: number
  scored_contextReason :: string

type_synonym skill_scores = "string \<rightharpoonup> (string \<rightharpoonup> ScoredEntry)"

definition merge_suggestion :: "(string \<rightharpoonup> ScoredEntry) \<Rightarrow> Suggestion \<Rightarrow> Suggestion" where
  "merge_suggestion task_scores s =
     (case task_scores (memberId s) of
        None \<Rightarrow> s
      | Some scored \<Rightarrow> s\<lparr>skillMatchPct := scored_skillMatchPct scored,
                         contextReason := scored_contextReason scored\<rparr>)"

definition merge_task :: "skill_scores \<Rightarrow> Task \<Rightarrow> Task" where
  "merge_task scores task =
     (let task_scores = (case scores (task_id task) of None \<Rightarrow> Map.empty | Some ts \<Rightarrow> ts)
      in task\<lparr>suggestions := map (merge_suggestion task_scores) (suggestions task)\<rparr>)"

definition load_tasks :: "Task list \<Rightarrow> skill_scores \<Rightarrow> Task list" where
  "load_tasks tasks scores = map (merge_task scores) tasks"


section \<open>Python strings and difflib\<close>

text \<open>
  A Python string is modelled as a list of characters with code points below 256.
  \<^verbatim>\<open>str.strip()\<close> removes the characters that \<^verbatim>\<open>str.isspace\<close> accepts in that
  range, \<^verbatim>\<open>str.lower()\<close> maps the upper-case letters of that range to lower case,
  \<^verbatim>\<open>s.lstrip(chars)\<close> removes every leading character that occurs in \<^verbatim>\<open>chars\<close>,
  and \<^verbatim>\<open>s.replace(old, new)\<close> is needed for single characters only.
\<close>

definition py_isspace :: "char \<Rightarrow> bool" where
  "py_isspace c = (let n = (of_char c :: nat) in
     (9 \<le> n \<and> n \<le> 13) \<or> (28 \<le> n \<and> n \<le> 32) \<or> n = 133 \<or> n = 160)"

definition py_lower_char :: "char \<Rightarrow> char" where
  "py_lower_char c = (let n = (of_char c :: nat) in
     if (65 \<le> n \<and> n \<le> 90) \<or> (192 \<le> n \<and> n \<le> 222 \<and> n \<noteq> 215)
     then char_of (n + 32) else c)"

definition py_lower :: "string \<Rightarrow> string" where
  "py_lower s = map py_lower_char s"

definition py_lstrip :: "string \<Rightarrow> string \<Rightarrow> string" where
  "py_lstrip chars s = dropWhile (\<lambda>c. c \<in> set chars) s"

definition py_replace :: "char \<Rightarrow> char \<Rightarrow> string \<Rightarrow> string" where
  "py_replace old new s = map (\<lambda>c. if c = old then new else c) s"

definition py_strip :: "string \<Rightarrow> string" where
  "py_strip s = rev (dropWhile py_isspace (rev (dropWhile py_isspace s)))"

text \<open>
  \<^verbatim>\<open>difflib.SequenceMatcher(None, a, b)\<close>, after CPython's \<^verbatim>\<open>difflib.py\<close>. With
  \<^verbatim>\<open>isjunk = None\<close> no element is junk; with \<^verbatim>\<open>autojunk\<close> (the default) an element
  of a \<open>b\<close> of 200 or more elements that occurs more than \<open>len(b) // 100 + 1\<close> times is
  popular and is left out of the index \<open>b2j\<close>, which maps an element to the positions
  where it occurs in \<open>b\<close>, in increasing order.
\<close>

definition popular :: "'a list \<Rightarrow> 'a \<Rightarrow> bool" where
  "popular b x \<longleftrightarrow> 200 \<le> length b \<and> length b div 100 + 1 < count_list b x"

definition b2j :: "'a list \<Rightarrow> 'a \<Rightarrow> nat list" where
  "b2j b x = (if popular b x then [] else filter (\<lambda>j. b ! j = x) [0..<length b])"

text \<open>
  \<^verbatim>\<open>find_longest_match(alo, ahi, blo, bhi)\<close>. A match is \<open>(i, j, size)\<close>. The dictionary
  \<open>j2len\<close> is a function with the default 0 of \<^verbatim>\<open>j2len.get(j-1, 0)\<close>; for \<open>j = 0\<close> the
  key \<open>-1\<close> is never present. \<open>flm_row\<close> is the inner loop over the positions of
  \<open>a[i]\<close> in \<open>b\<close> (\<^verbatim>\<open>continue\<close> below \<open>blo\<close>, \<^verbatim>\<open>break\<close> from \<open>bhi\<close> on), \<open>flm_rows\<close>
  the outer loop over \<open>i\<close>.
\<close>

type_synonym match = "nat \<times> nat \<times> nat"

fun flm_row :: "(nat \<Rightarrow> nat) \<Rightarrow> nat \<Rightarrow> nat \<Rightarrow> nat \<Rightarrow> nat list
    \<Rightarrow> (nat \<Rightarrow> nat) \<times> match \<Rightarrow> (nat \<Rightarrow> nat) \<times> match" where
  "flm_row j2len i blo bhi [] st = st"
| "flm_row j2len i blo bhi (j # js) (newj2len, (besti, bestj, bestsize)) =
     (if j < blo then flm_row j2len i blo bhi js (newj2len, (besti, bestj, bestsize))
      else if bhi \<le> j then (newj2len, (besti, bestj, bestsize))
      else let k = (if j = 0 then 0 else j2len (j - 1)) + 1 in
        flm_row j2len i blo bhi js
          (newj2len(j := k),
           if bestsize < k then (i + 1 - k, j + 1 - k, k) else (besti, bestj, bestsize)))"

fun flm_rows :: "'a list \<Rightarrow> 'a list \<Rightarrow> nat \<Rightarrow> nat \<Rightarrow> nat list
    \<Rightarrow> (nat \<Rightarrow> nat) \<times> match \<Rightarrow> (nat \<Rightarrow> nat) \<times> match" where
  "flm_rows a b blo bhi [] st = st"
| "flm_rows a b blo bhi (i # is) (j2len, best) =
     flm_rows a b blo bhi is (flm_row j2len i blo bhi (b2j b (a ! i)) (\<lambda>_. 0, best))"

text \<open>
  The two loops that extend the match by elements that are not junk (popular elements
  are not junk). The two loops that extend it by junk never run: the set of junk is empty.
\<close>

fun extend_left :: "'a list \<Rightarrow> 'a list \<Rightarrow> nat \<Rightarrow> nat \<Rightarrow> match \<Rightarrow> match" where
  "extend_left a b alo blo (besti, bestj, bestsize) =
     (if alo < besti \<and> blo < bestj \<and> a ! (besti - 1) = b ! (bestj - 1)
      then extend_left a b alo blo (besti - 1, bestj - 1, bestsize + 1)
      else (besti, bestj, bestsize))"

function extend_right :: "'a list \<Rightarrow> 'a list \<Rightarrow> nat \<Rightarrow> nat \<Rightarrow> match \<Rightarrow> match" where
  "extend_right a b ahi bhi (besti, bestj, bestsize) =
     (if besti + bestsize < ahi \<and> bestj + bestsize < bhi
         \<and> a ! (besti + bestsize) = b ! (bestj + bestsize)
      then extend_right a b ahi bhi (besti, bestj, bestsize + 1)
      else (besti, bestj, bestsize))"
  by pat_completeness auto
termination
  by (relation "measure (\<lambda>(a, b, ahi, bhi, besti, bestj, bestsize). ahi - (besti + bestsize))") auto

declare extend_left.simps [simp del]
declare extend_right.simps [simp del]

definition find_longest_match :: "'a list \<Rightarrow> 'a list \<Rightarrow> nat \<Rightarrow> nat \<Rightarrow> nat \<Rightarrow> nat \<Rightarrow> match" where
  "find_longest_match a b alo ahi blo bhi =
     extend_right a b ahi bhi
       (extend_left a b alo blo
          (snd (flm_rows a b blo bhi [alo..<ahi] (\<lambda>_. 0, (alo, blo, 0)))))"

text \<open>
  The longest match lies inside \<open>a[alo:ahi]\<close>; the recursion of \<open>get_matching_blocks\<close>
  to its left and to its right terminates for this reason.
\<close>

lemma flm_row_inv:
  assumes "alo \<le> i" and "\<forall>j. j2len j \<le> i - alo"
  shows "(\<forall>j. new j \<le> Suc i - alo) \<and> alo \<le> fst best \<and> fst best + snd (snd best) \<le> Suc i
     \<Longrightarrow> (case flm_row j2len i blo bhi js (new, best) of (new', best') \<Rightarrow>
           (\<forall>j. new' j \<le> Suc i - alo) \<and> alo \<le> fst best' \<and> fst best' + snd (snd best') \<le> Suc i)"
proof (induction js arbitrary: new best)
  case Nil
  then show ?case by simp
next
  case (Cons j js)
  obtain besti bestj bestsize where best: "best = (besti, bestj, bestsize)"
    by (cases best)
  define k where "k = (if j = 0 then 0 else j2len (j - 1)) + 1"
  have "(if j = 0 then 0 else j2len (j - 1)) \<le> i - alo"
    using assms(2) by simp
  then have k: "k \<le> Suc i - alo" "0 < k"
    using assms(1) by (simp_all add: k_def Suc_diff_le)
  show ?case
  proof (cases "j < blo")
    case True
    with Cons show ?thesis by (simp add: best)
  next
    case False
    show ?thesis
    proof (cases "bhi \<le> j")
      case True
      with False Cons.prems show ?thesis by (simp add: best)
    next
      case inner: False
      define new1 where "new1 = new(j := k)"
      define best1 where
        "best1 = (if bestsize < k then (i + 1 - k, j + 1 - k, k) else (besti, bestj, bestsize))"
      have eq: "flm_row j2len i blo bhi (j # js) (new, best) = flm_row j2len i blo bhi js (new1, best1)"
        using False inner by (simp add: best k_def new1_def best1_def Let_def)
      have "(\<forall>j. new1 j \<le> Suc i - alo) \<and> alo \<le> fst best1 \<and> fst best1 + snd (snd best1) \<le> Suc i"
        using Cons.prems k assms(1) by (auto simp: best new1_def best1_def)
      from Cons.IH [OF this] show ?thesis by (simp only: eq)
    qed
  qed
qed

lemma flm_rows_inv:
  "alo \<le> i0 \<Longrightarrow> (\<forall>j. j2len j \<le> i0 - alo) \<and> alo \<le> fst best \<and> fst best + snd (snd best) \<le> i0
   \<Longrightarrow> (case flm_rows a b blo bhi [i0..<ahi] (j2len, best) of (j2len', best') \<Rightarrow>
         alo \<le> fst best' \<and> fst best' + snd (snd best') \<le> max i0 ahi)"
proof (induction "ahi - i0" arbitrary: i0 j2len best)
  case 0
  then show ?case by simp
next
  case (Suc n)
  then have lt: "i0 < ahi" by simp
  obtain new' best' where row:
    "flm_row j2len i0 blo bhi (b2j b (a ! i0)) (\<lambda>_. 0, best) = (new', best')"
    by (cases "flm_row j2len i0 blo bhi (b2j b (a ! i0)) (\<lambda>_. 0, best)")
  have j2: "\<forall>j. j2len j \<le> i0 - alo" using Suc.prems(2) by simp
  have "(\<forall>j. (\<lambda>_. 0::nat) j \<le> Suc i0 - alo) \<and> alo \<le> fst best \<and> fst best + snd (snd best) \<le> Suc i0"
    using Suc.prems by simp
  from flm_row_inv [where blo = blo and bhi = bhi and js = "b2j b (a ! i0)",
      OF Suc.prems(1) j2 this] row
  have inv: "(\<forall>j. new' j \<le> Suc i0 - alo) \<and> alo \<le> fst best' \<and> fst best' + snd (snd best') \<le> Suc i0"
    by simp
  have n: "n = ahi - Suc i0" using Suc.hyps(2) by simp
  have le: "alo \<le> Suc i0" using Suc.prems(1) by simp
  from Suc.hyps(1) [OF n le inv] lt row show ?case
    by (simp add: upt_conv_Cons max_def)
qed

lemma extend_left_inv:
  "extend_left a b alo blo m = m' \<Longrightarrow> alo \<le> fst m \<Longrightarrow>
     alo \<le> fst m' \<and> fst m' + snd (snd m') = fst m + snd (snd m)"
proof (induction a b alo blo m rule: extend_left.induct)
  case (1 a b alo blo besti bestj bestsize)
  show ?case
  proof (cases "alo < besti \<and> blo < bestj \<and> a ! (besti - 1) = b ! (bestj - 1)")
    case True
    with "1.prems"(1) have "extend_left a b alo blo (besti - 1, bestj - 1, bestsize + 1) = m'"
      by (simp add: extend_left.simps [of a b alo blo besti bestj bestsize])
    moreover have "alo \<le> fst (besti - 1, bestj - 1, bestsize + 1)"
      using True by auto
    ultimately show ?thesis using "1.IH" [OF True] True by simp
  next
    case False
    with "1.prems" show ?thesis
      by (auto simp: extend_left.simps [of a b alo blo besti bestj bestsize])
  qed
qed

lemma extend_right_inv:
  "extend_right a b ahi bhi m = m' \<Longrightarrow> fst m + snd (snd m) \<le> max c ahi \<Longrightarrow>
     fst m' = fst m \<and> fst m' + snd (snd m') \<le> max c ahi"
proof (induction a b ahi bhi m rule: extend_right.induct)
  case (1 a b ahi bhi besti bestj bestsize)
  show ?case
  proof (cases "besti + bestsize < ahi \<and> bestj + bestsize < bhi
         \<and> a ! (besti + bestsize) = b ! (bestj + bestsize)")
    case True
    with "1.prems"(1) have "extend_right a b ahi bhi (besti, bestj, bestsize + 1) = m'"
      by (simp add: extend_right.simps [of a b ahi bhi besti bestj bestsize])
    moreover have "fst (besti, bestj, bestsize + 1) + snd (snd (besti, bestj, bestsize + 1)) \<le> max c ahi"
      using True by auto
    ultimately show ?thesis using "1.IH" [OF True] by simp
  next
    case False
    with "1.prems" show ?thesis
      by (auto simp: extend_right.simps [of a b ahi bhi besti bestj bestsize])
  qed
qed

lemma find_longest_match_bounds:
  assumes "find_longest_match a b alo ahi blo bhi = (i, j, k)"
  shows "alo \<le> i" and "i + k \<le> max alo ahi"
proof -
  obtain j2len' m0 where rows:
    "flm_rows a b blo bhi [alo..<ahi] (\<lambda>_. 0, (alo, blo, 0)) = (j2len', m0)"
    by (cases "flm_rows a b blo bhi [alo..<ahi] (\<lambda>_. 0, (alo, blo, 0))")
  from flm_rows_inv [where alo = alo and ?i0.0 = alo and j2len = "\<lambda>_. 0"
      and best = "(alo, blo, 0)" and a = a and b = b and blo = blo and bhi = bhi and ahi = ahi] rows
  have m0: "alo \<le> fst m0" "fst m0 + snd (snd m0) \<le> max alo ahi" by simp_all
  define m1 where "m1 = extend_left a b alo blo m0"
  from extend_left_inv [OF m1_def [symmetric] m0(1)] m0(2)
  have m1: "alo \<le> fst m1" "fst m1 + snd (snd m1) \<le> max alo ahi" by simp_all
  have "extend_right a b ahi bhi m1 = (i, j, k)"
    using assms by (simp add: find_longest_match_def rows m1_def)
  from extend_right_inv [OF this m1(2)] m1(1)
  show "alo \<le> i" and "i + k \<le> max alo ahi" by simp_all
qed

text \<open>
  \<^verbatim>\<open>get_matching_blocks()\<close>: the longest match of a region, then the blocks to its
  left and to its right. The source keeps a queue of regions and sorts the blocks in the
  end; the blocks are listed in that sorted order. It then merges adjacent blocks and
  appends the block \<open>(len(a), len(b), 0)\<close>, which leaves the sum of the sizes as it is.
\<close>

function matching_blocks :: "'a list \<Rightarrow> 'a list \<Rightarrow> nat \<Rightarrow> nat \<Rightarrow> nat \<Rightarrow> nat \<Rightarrow> match list" where
  "matching_blocks a b alo ahi blo bhi =
     (case find_longest_match a b alo ahi blo bhi of (i, j, k) \<Rightarrow>
        if k = 0 then []
        else (if alo < i \<and> blo < j then matching_blocks a b alo i blo j else [])
             @ [(i, j, k)]
             @ (if i + k < ahi \<and> j + k < bhi then matching_blocks a b (i + k) ahi (j + k) bhi
                else []))"
  by pat_completeness auto
termination
proof (relation "measure (\<lambda>(a, b, alo, ahi, blo, bhi). ahi - alo)", goal_cases)
  case 1
  show ?case by simp
next
  case (2 a b alo ahi blo bhi i y j k)
  then have "find_longest_match a b alo ahi blo bhi = (i, j, k)" by simp
  from find_longest_match_bounds [OF this] 2 show ?case
    by (auto simp: max_def split: if_splits)
next
  case (3 a b alo ahi blo bhi i y j k)
  then have "find_longest_match a b alo ahi blo bhi = (i, j, k)" by simp
  from find_longest_match_bounds [OF this] 3 show ?case
    by (auto simp: max_def split: if_splits)
qed

definition get_matching_blocks :: "'a list \<Rightarrow> 'a list \<Rightarrow> match list" where
  "get_matching_blocks a b = matching_blocks a b 0 (length a) 0 (length b)"

text \<open>
  \<^verbatim>\<open>ratio()\<close> is \<open>2.0 * matches / length\<close>, and 1.0 for two empty sequences. The
  quotient is a double; it is modelled by the exact rational. The comparisons
  \<^verbatim>\<open>ratio > best_ratio\<close> and \<^verbatim>\<open>best_ratio >= 0.75\<close> agree with those of the
  rationals as long as two different quotients do not round to the same double, which
  needs sequences of more than \<open>2^26\<close> elements.
\<close>

definition ratio :: "'a list \<Rightarrow> 'a list \<Rightarrow> rat" where
  "ratio a b =
     (let matches = sum_list (map (\<lambda>(i, j, k). k) (get_matching_blocks a b));
          len = length a + length b
      in if len \<noteq> 0 then 2 * of_nat matches / of_nat len else 1)"


section \<open>The roster and the identity matcher\<close>

text \<open>
  A roster member with the fields of the data model (section 3 of the specification),
  and \<open>slackOooStart\<close>, which \<^verbatim>\<open>TeamMember\<close> of \<^verbatim>\<open>lib/types.ts\<close> declares next to
  \<^verbatim>\<open>slackOooUntil\<close> (\<^verbatim>\<open>slackOooStart?: Date | null; // Slack-sourced OOO start (may be
  future)\<close>). The matcher reads \<open>name\<close> only. The field \<^verbatim>\<open>id\<close> is \<open>member_id\<close>.
  Timestamps are integers.
\<close>

datatype Availability = Available | Partial | OOO

datatype Source = SourceDefault | SourceSlack | SourceManual

record Member =
  member_id :: string
  name :: string
  skills :: "string set"
  availability :: Availability
  isOutOfOffice :: bool
  source :: Source
  manualOverrideActive :: bool
  slackOooStart :: "int option"
  slackOooUntil :: "int option"
  calendarFreePct :: nat

text \<open>
  \<^verbatim>\<open>def _best_member_match(username, members):
      norm = username.lstrip("@").replace(".", " ").strip().lower()
      best_ratio, best_member = 0.0, None
      for m in members:
          ratio = difflib.SequenceMatcher(None, norm, m.name.lower()).ratio()
          if ratio > best_ratio:
              best_ratio, best_member = ratio, m
      return best_member if best_ratio >= 0.75 else None\<close>
  The function is \<open>best_member_match\<close>, its local \<^verbatim>\<open>norm\<close> is \<open>norm'\<close>.
\<close>

definition normalise_username :: "string \<Rightarrow> string" where
  "normalise_username username =
     py_lower (py_strip (py_replace (CHR ''.'') (CHR '' '') (py_lstrip ''@'' username)))"

fun best_loop :: "string \<Rightarrow> Member list \<Rightarrow> rat \<times> Member option \<Rightarrow> rat \<times> Member option" where
  "best_loop norm' [] (best_ratio, best_member) = (best_ratio, best_member)"
| "best_loop norm' (m # members) (best_ratio, best_member) =
     (let r = ratio norm' (py_lower (name m)) in
      if best_ratio < r then best_loop norm' members (r, Some m)
      else best_loop norm' members (best_ratio, best_member))"

definition best_member_match :: "string \<Rightarrow> Member list \<Rightarrow> Member option" where
  "best_member_match username members =
     (let norm' = normalise_username username;
          (best_ratio, best_member) = best_loop norm' members (0, None)
      in if 3/4 \<le> best_ratio then best_member else None)"

text \<open>
  The matcher in the words of the specification (section 4.1), to compare with the code:
  strip a leading \<^verbatim>\<open>@\<close>, replace \<^verbatim>\<open>.\<close> by a space, trim, lowercase; select the
  member with the highest ratio, the first one in roster order among equals, and return
  it only if the ratio is at least 0.75.
\<close>

definition strip_leading_at :: "string \<Rightarrow> string" where
  "strip_leading_at s = (case s of c # cs \<Rightarrow> if c = CHR ''@'' then cs else s | [] \<Rightarrow> [])"

definition normalize_reference :: "string \<Rightarrow> string" where
  "normalize_reference reference =
     py_lower (py_strip (py_replace (CHR ''.'') (CHR '' '') (strip_leading_at reference)))"

definition select_best :: "string \<Rightarrow> Member list \<Rightarrow> Member option" where
  "select_best norm' roster =
     (case List.find (\<lambda>m. list_all (\<lambda>m'. ratio norm' (py_lower (name m'))
                                        \<le> ratio norm' (py_lower (name m))) roster) roster of
        None \<Rightarrow> None
      | Some m \<Rightarrow> if 3/4 \<le> ratio norm' (py_lower (name m)) then Some m else None)"

definition match_spec :: "string \<Rightarrow> Member list \<Rightarrow> Member option" where
  "match_spec reference roster = select_best (normalize_reference reference) roster"


section \<open>The reconciliation engine\<close>

text \<open>
  Modelled from the spec: the apply pass and the expiry sweep of the backend
  (\<^verbatim>\<open>apply_timeoff_entries\<close> and \<^verbatim>\<open>restore_expired_slack_ooo\<close> of \<^verbatim>\<open>crud.py\<close>) are
  not among the sources, which hold a plan for them, the types of their results and the
  page that shows them. The records below are the StructuredAnnouncement, the
  MemberOOOChange and the SyncResult of section 3 and 4.3 of the specification. The
  fields \<^verbatim>\<open>memberId\<close>, \<^verbatim>\<open>startDate\<close>, \<^verbatim>\<open>endDate\<close> and \<^verbatim>\<open>reason\<close> of a change
  carry the prefix \<open>change_\<close>.
\<close>

record StructuredAnnouncement =
  personReference :: string
  startDate :: "int option"
  endDate :: "int option"
  reason :: "string option"
  coverageReference :: "string option"

record MemberOOOChange =
  change_memberId :: string
  memberName :: string
  matchedReference :: string
  change_startDate :: "int option"
  change_endDate :: "int option"
  change_reason :: "string option"
  coverageBy :: "string option"
  pending :: bool

record SyncResult =
  scanned :: nat
  detected :: nat
  applied :: nat
  skipped :: nat
  changes :: "MemberOOOChange list"

text \<open>
  Modelled from the spec: the normalizer of section 4.2, which is part of the missing
  backend. Skip is \<open>None\<close>. An announcement is rejected if both dates are before now;
  it is active if \<open>startDate \<le> now\<close> and \<open>endDate\<close> is null or \<open>endDate \<ge> now\<close>, future if
  \<open>startDate > now\<close>, and skipped otherwise. A comparison with a date that is absent
  does not hold, so an announcement with no start date is skipped.
\<close>

datatype TemporalState = Active | Future

definition before :: "int option \<Rightarrow> int \<Rightarrow> bool" where
  "before d now = (case d of None \<Rightarrow> False | Some t \<Rightarrow> t < now)"

definition normalize :: "StructuredAnnouncement \<Rightarrow> int \<Rightarrow> TemporalState option" where
  "normalize a now =
     (if before (startDate a) now \<and> before (endDate a) now then None
      else case startDate a of
             None \<Rightarrow> None
           | Some s \<Rightarrow>
               if s \<le> now \<and> (case endDate a of None \<Rightarrow> True | Some e \<Rightarrow> now \<le> e)
               then Some Active
               else if now < s then Some Future
               else None)"

text \<open>
  The matcher returns the record of the roster itself; the record that is then changed
  is the one at the first position that holds it.
\<close>

definition position_of :: "'a \<Rightarrow> 'a list \<Rightarrow> nat" where
  "position_of x xs = length (takeWhile (\<lambda>y. y \<noteq> x) xs)"

text \<open>
  Modelled from the spec: the change that an applied entry makes to the matched member,
  part of the missing backend. An active entry is step 4 of section 4.3: availability
  \<open>ooo\<close>, out of office, source \<open>slack\<close>, \<open>slackOooUntil = endDate\<close>; its start is kept
  in \<open>slackOooStart\<close>. An entry whose start is in the future is stored in
  \<open>slackOooStart\<close> and \<open>slackOooUntil\<close> and leaves the availability and the
  out-of-office flag as they are: by section 8 (future activation) it does not set the
  member out of office until its start date, and by section 1 it activates as a function
  of the clock; the settings page says of the sync that future OOOs are stored and
  activate automatically. Step 4 read alone, which names no temporal state, would set the
  member out of office at once; sections 1 and 8 decide.
\<close>

definition slack_update :: "TemporalState \<Rightarrow> StructuredAnnouncement \<Rightarrow> Member \<Rightarrow> Member" where
  "slack_update state a m =
     (case state of
        Active \<Rightarrow> m\<lparr>availability := OOO, isOutOfOffice := True, source := SourceSlack,
                    slackOooStart := startDate a, slackOooUntil := endDate a\<rparr>
      | Future \<Rightarrow> m\<lparr>slackOooStart := startDate a, slackOooUntil := endDate a\<rparr>)"

text \<open>
  Modelled from the spec: one step of the apply pass of section 4.3, part of the missing
  backend. Every entry of the pass is a detected announcement and increments \<open>detected\<close>.
  (1) A skip of the normalizer increments \<open>skipped\<close> and ends the step. (2) No match
  increments \<open>skipped\<close>. (3) A matched member under manual override counts as skipped and
  is left alone. (4) Otherwise the entry is applied to the member (\<open>slack_update\<close>), a
  change is emitted with \<open>pending = (state = future)\<close>, and \<open>applied\<close> is incremented.

  The counters follow the result contract of section 4.3 and section 8
  (\<open>skipped = detected - applied\<close>) together with step 1 and with \<^verbatim>\<open>TimeOffSyncResult\<close>
  of \<^verbatim>\<open>lib/types.ts\<close> (\<^verbatim>\<open>detected: Slack messages classified as time-off\<close>,
  \<^verbatim>\<open>applied: matched to a known team member\<close>, \<^verbatim>\<open>pending: applied but start_date is in
  the future\<close>, \<^verbatim>\<open>skipped: detected but couldn't match or already passed\<close>): an entry
  that the normalizer skips is detected and skipped. The first half of step 5, which
  counts as detected only the entries that passed normalization, cannot hold together
  with step 1 and that contract, and is not followed.
\<close>

definition apply_one ::
  "int \<Rightarrow> Member list \<times> SyncResult \<Rightarrow> StructuredAnnouncement \<Rightarrow> Member list \<times> SyncResult" where
  "apply_one now st a =
     (case st of (roster, r0) \<Rightarrow>
      let r = r0\<lparr>detected := detected r0 + 1\<rparr> in
      (case normalize a now of
         None \<Rightarrow> (roster, r\<lparr>skipped := skipped r + 1\<rparr>)
       | Some state \<Rightarrow>
           (case best_member_match (personReference a) roster of
              None \<Rightarrow> (roster, r\<lparr>skipped := skipped r + 1\<rparr>)
            | Some m \<Rightarrow>
                if manualOverrideActive m then (roster, r\<lparr>skipped := skipped r + 1\<rparr>)
                else
                  (list_update roster (position_of m roster) (slack_update state a m),
                   r\<lparr>applied := applied r + 1,
                     changes := changes r @
                       [\<lparr>change_memberId = member_id m, memberName = name m,
                         matchedReference = personReference a,
                         change_startDate = startDate a, change_endDate = endDate a,
                         change_reason = reason a, coverageBy = coverageReference a,
                         pending = (state = Future)\<rparr>]\<rparr>))))"

text \<open>
  Modelled from the spec: \<open>applyAnnouncements(announcements, roster, now)\<close> of section
  4.3, part of the missing backend. It returns the roster after the pass and the
  SyncResult; \<open>scanned\<close> is the number of announcements.
\<close>

definition applyAnnouncements ::
  "StructuredAnnouncement list \<Rightarrow> Member list \<Rightarrow> int \<Rightarrow> Member list \<times> SyncResult" where
  "applyAnnouncements announcements roster now =
     foldl (apply_one now)
       (roster, \<lparr>scanned = length announcements, detected = 0, applied = 0, skipped = 0,
                 changes = []\<rparr>)
       announcements"

text \<open>
  Modelled from the spec: \<open>restoreExpired(roster, now)\<close> of section 4.3, part of the
  missing backend. A member whose \<open>slackOooUntil\<close> is set and before now is reset to
  available, not out of office, \<open>slackOooUntil = null\<close>, unless the manual override is
  active; the stored start is cleared with the end. It returns the roster after the
  sweep and the ids of the restored members.
\<close>

definition expired :: "Member \<Rightarrow> int \<Rightarrow> bool" where
  "expired m now =
     ((case slackOooUntil m of None \<Rightarrow> False | Some t \<Rightarrow> t < now) \<and> \<not> manualOverrideActive m)"

definition restoreExpired :: "Member list \<Rightarrow> int \<Rightarrow> Member list \<times> string list" where
  "restoreExpired roster now =
     (map (\<lambda>m. if expired m now
               then m\<lparr>availability := Available, isOutOfOffice := False,
                      slackOooStart := None, slackOooUntil := None\<rparr>
               else m) roster,
      map member_id (filter (\<lambda>m. expired m now) roster))"

text \<open>
  Modelled from the spec: the activation of a stored announcement, part of the missing
  backend. Section 8 (future activation) has a later sweep set the member out of office
  once the start date has come, and section 1 has future announcements activate as a
  function of the clock, with no new input; section 4.3 names no operation for it. A
  member whose stored start has come (\<open>slackOooStart \<le> now\<close>) is set to \<open>ooo\<close>, out of
  office, source \<open>slack\<close>, unless the manual override is active. The sweep of section 8
  is \<open>restoreExpired\<close> followed by this activation, so that an announcement that has
  expired is cleared and not activated. \<open>due\<close> is the condition of the activation.
\<close>

definition due :: "Member \<Rightarrow> int \<Rightarrow> bool" where
  "due m now =
     ((case slackOooStart m of None \<Rightarrow> False | Some t \<Rightarrow> t \<le> now) \<and> \<not> manualOverrideActive m)"

text \<open>
  Modelled from the spec: the activation pass over the roster (section 8, future
  activation), part of the missing backend.
\<close>

definition activateDue :: "Member list \<Rightarrow> int \<Rightarrow> Member list" where
  "activateDue roster now =
     map (\<lambda>m. if due m now
              then m\<lparr>availability := OOO, isOutOfOffice := True, source := SourceSlack\<rparr>
              else m) roster"

text \<open>
  Modelled from the spec: the sweep of section 8, part of the missing backend:
  \<open>restoreExpired\<close>, then the activation. It returns the roster after both and the ids
  of the restored members.
\<close>

definition sweep :: "Member list \<Rightarrow> int \<Rightarrow> Member list \<times> string list" where
  "sweep roster now =
     (case restoreExpired roster now of (restored, ids) \<Rightarrow> (activateDue restored now, ids))"


section \<open>Example data\<close>

text \<open>The roster and the task of the scenarios of the specification.\<close>

definition jordan_lee :: TeamMember where
  "jordan_lee = \<lparr>tm_id = ''mem-1'', tm_name = ''Jordan Lee'', role = ''Senior Backend Engineer'',
     dataSources = \<lparr>calendarPct = 71, leaveStatus = LeaveAvailable\<rparr>,
     isOOO = False, managerNotes = None\<rparr>"

definition suggest_jordan :: Suggestion where
  "suggest_jordan = \<lparr>memberId = ''mem-1'', skillMatchPct = 90, workloadPct = 29,
     contextReason = ''OAuth and Node.js expertise''\<rparr>"

definition suggest_unknown :: Suggestion where
  "suggest_unknown = \<lparr>memberId = ''mem-9'', skillMatchPct = 50, workloadPct = 10,
     contextReason = ''left the team''\<rparr>"

definition task_001 :: Task where
  "task_001 = \<lparr>task_id = ''task-001'', title = ''Auth service migration'',
     assigneeId = Some ''mem-3'', projectName = ''Platform'', status = AtRisk,
     suggestions = [suggest_unknown, suggest_jordan]\<rparr>"

text \<open>
  A second task, selected in the store \<open>store_002\<close> and neither covered nor running: one
  of its three candidates (\<^verbatim>\<open>mem-9\<close>) is not in the roster \<open>[jordan_lee, sam_ortiz]\<close>.
  In \<open>store_covered\<close> the same task is marked as covered.
\<close>

definition sam_ortiz :: TeamMember where
  "sam_ortiz = \<lparr>tm_id = ''mem-4'', tm_name = ''Sam Ortiz'', role = ''Frontend Engineer'',
     dataSources = \<lparr>calendarPct = 10, leaveStatus = LeaveAvailable\<rparr>,
     isOOO = False, managerNotes = None\<rparr>"

definition suggest_sam :: Suggestion where
  "suggest_sam = \<lparr>memberId = ''mem-4'', skillMatchPct = 20, workloadPct = 80,
     contextReason = ''some React experience''\<rparr>"

definition task_002 :: Task where
  "task_002 = \<lparr>task_id = ''task-002'', title = ''Login page redesign'',
     assigneeId = None, projectName = ''Web'', status = Unassigned,
     suggestions = [suggest_sam, suggest_unknown, suggest_jordan]\<rparr>"

definition store_002 :: AppStore where
  "store_002 = \<lparr>selectedTaskId = Some ''task-002'', taskStatusOverrides = Map.empty,
     pipelineRunning = Map.empty\<rparr>"

definition store_covered :: AppStore where
  "store_covered = \<lparr>selectedTaskId = Some ''task-002'',
     taskStatusOverrides = [''task-002'' \<mapsto> Covered], pipelineRunning = Map.empty\<rparr>"

definition member_named :: "string \<Rightarrow> string \<Rightarrow> Member" where
  "member_named i n = \<lparr>member_id = i, name = n, skills = {}, availability = Available,
     isOutOfOffice = False, source = SourceDefault, manualOverrideActive = False,
     slackOooStart = None, slackOooUntil = None, calendarFreePct = 0\<rparr>"

definition maya_patel :: Member where
  "maya_patel = \<lparr>member_id = ''mem-2'', name = ''Maya Patel'', skills = {''Design''},
     availability = Available, isOutOfOffice = False, source = SourceDefault,
     manualOverrideActive = False, slackOooStart = None, slackOooUntil = None,
     calendarFreePct = 60\<rparr>"

definition jordan :: Member where
  "jordan = \<lparr>member_id = ''mem-1'', name = ''Jordan Lee'', skills = {''OAuth''},
     availability = Available, isOutOfOffice = False, source = SourceDefault,
     manualOverrideActive = False, slackOooStart = None, slackOooUntil = None,
     calendarFreePct = 71\<rparr>"

definition jordan_overridden :: Member where
  "jordan_overridden = jordan\<lparr>source := SourceManual, manualOverrideActive := True,
     slackOooStart := Some 3, slackOooUntil := Some 5\<rparr>"

definition announce_jordan :: "int option \<Rightarrow> int option \<Rightarrow> StructuredAnnouncement" where
  "announce_jordan s e = \<lparr>personReference = ''@jordan.lee'', startDate = s, endDate = e,
     reason = None, coverageReference = Some ''alex''\<rparr>"


section \<open>Properties of the rounding\<close>

lemma round_even_err: "\<bar>of_int (round_even y) - y\<bar> \<le> 1/2"
proof -
  have "of_int \<lfloor>y\<rfloor> \<le> y" "y < of_int \<lfloor>y\<rfloor> + 1" by linarith+
  then show ?thesis
    unfolding round_even_def Let_def by (auto simp: abs_if) linarith+
qed

lemma bitlen_powi:
  assumes "0 < p"
  shows "2 powi (bitlen p - 1) \<le> (of_int p :: rat)" and "(of_int p :: rat) < 2 powi (bitlen p)"
proof -
  from assms have b1: "1 \<le> bitlen p"
    using bitlen_eq_zero_iff [of p] bitlen_nonneg [of p] by linarith
  from bitlen_bounds [OF assms]
  have lo: "2 ^ nat (bitlen p - 1) \<le> p" and hi: "p < 2 ^ nat (bitlen p)" by simp_all
  have "(of_int (2 ^ nat (bitlen p - 1)) :: rat) \<le> of_int p"
    using lo by (simp only: of_int_le_iff)
  then show "2 powi (bitlen p - 1) \<le> (of_int p :: rat)"
    using b1 by (simp add: power_int_def)
  have "(of_int p :: rat) < of_int (2 ^ nat (bitlen p))"
    using hi by (simp only: of_int_less_iff)
  then show "(of_int p :: rat) < 2 powi (bitlen p)"
    using b1 by (simp add: power_int_def)
qed

lemma ilog2_bounds:
  assumes "0 < x"
  shows "2 powi (ilog2 x) \<le> x" and "x < 2 powi (ilog2 x + 1)"
proof -
  obtain p q where pq: "quotient_of x = (p, q)" by (cases "quotient_of x")
  then have q: "0 < q" and x: "x = of_int p / of_int q"
    using quotient_of_denom_pos quotient_of_div by auto
  with assms have p: "0 < p"
    by (simp add: zero_less_divide_iff)
  define d where "d = bitlen p - bitlen q"
  have il: "ilog2 x = (if 2 powi d \<le> x then d else d - 1)"
    by (simp add: ilog2_def pq d_def)
  have q0: "(0::rat) < of_int q" using q by simp
  have "2 powi (d - 1) = (2::rat) powi (bitlen p - 1) / 2 powi (bitlen q)"
    by (simp add: d_def power_int_diff)
  also have "\<dots> \<le> of_int p / 2 powi (bitlen q)"
    using bitlen_powi(1) [OF p] by (simp add: divide_right_mono)
  also have "\<dots> < of_int p / of_int q"
    using bitlen_powi(2) [OF q] p q0 by (simp add: divide_strict_left_mono)
  finally have lo: "2 powi (d - 1) < x" by (simp add: x)
  have "x = of_int p / of_int q" by (rule x)
  also have "\<dots> < 2 powi (bitlen p) / of_int q"
    using bitlen_powi(2) [OF p] q0 by (simp add: divide_strict_right_mono)
  also have "\<dots> \<le> 2 powi (bitlen p) / 2 powi (bitlen q - 1)"
    using bitlen_powi(1) [OF q] by (intro frac_le) simp_all
  also have "\<dots> = 2 powi (d + 1)"
    by (simp add: d_def power_int_diff power_int_add)
  finally have hi: "x < 2 powi (d + 1)" .
  show "2 powi (ilog2 x) \<le> x"
    using lo by (simp add: il)
  show "x < 2 powi (ilog2 x + 1)"
    using hi by (simp add: il not_le)
qed

lemma ilog2_less:
  assumes "0 < x" and "x < 2 powi k"
  shows "ilog2 x < k"
proof (rule ccontr)
  assume "\<not> ilog2 x < k"
  then have "(2::rat) powi k \<le> 2 powi (ilog2 x)"
    by (simp add: power_int_increasing)
  with ilog2_bounds(1) [OF assms(1)] assms(2) show False by linarith
qed

text \<open>The rounding error is at most half a unit in the last place.\<close>

lemma fl_err:
  assumes "x \<noteq> 0"
  shows "\<bar>fl x - x\<bar> \<le> 2 powi (max (ilog2 \<bar>x\<bar> - 52) (- 1074) - 1)"
proof -
  define e where "e = max (ilog2 \<bar>x\<bar> - 52) (- 1074)"
  define y where "y = x / 2 powi e"
  have pe: "(0::rat) < 2 powi e" by simp
  have xy: "x = y * 2 powi e" by (simp add: y_def)
  have "fl x = of_int (round_even y) * 2 powi e"
    using assms by (simp add: fl_def e_def y_def Let_def)
  then have "fl x - x = (of_int (round_even y) - y) * 2 powi e"
    by (simp add: xy algebra_simps)
  then have "\<bar>fl x - x\<bar> = \<bar>of_int (round_even y) - y\<bar> * 2 powi e"
    by (simp add: abs_mult)
  also have "\<dots> \<le> (1/2) * 2 powi e"
    using round_even_err [of y] pe by (simp add: mult_right_mono)
  also have "\<dots> = 2 powi (e - 1)"
    by (simp add: power_int_diff)
  finally show ?thesis by (simp only: e_def)
qed

text \<open>In the range of the normal numbers the unit is relative to the magnitude.\<close>

lemma fl_err_bound:
  assumes "- 1021 \<le> k" and "\<bar>x\<bar> < 2 powi k"
  shows "\<bar>fl x - x\<bar> \<le> 2 powi (k - 54)"
proof (cases "x = 0")
  case True
  then show ?thesis by (simp add: fl_def)
next
  case False
  then have "0 < \<bar>x\<bar>" by simp
  from ilog2_less [OF this assms(2)] assms(1)
  have "max (ilog2 \<bar>x\<bar> - 52) (- 1074) - 1 \<le> k - 54" by simp
  then have "(2::rat) powi (max (ilog2 \<bar>x\<bar> - 52) (- 1074) - 1) \<le> 2 powi (k - 54)"
    by (rule power_int_increasing) simp
  with fl_err [OF False] show ?thesis by linarith
qed

text \<open>
  Rounding keeps the sign of a value that is at least \<open>min_double\<close> in magnitude, and the
  difference of two distinct doubles is such a value: it does not round to zero.
\<close>

lemma min_double_pos: "0 < min_double"
  unfolding min_double_def by (rule zero_less_power_int) simp

lemma fl_sign:
  assumes "min_double \<le> \<bar>x\<bar>"
  shows "0 < x \<Longrightarrow> 0 < fl x" and "x < 0 \<Longrightarrow> fl x < 0"
proof -
  from assms min_double_pos have a: "0 < \<bar>x\<bar>" by linarith
  then have x0: "x \<noteq> 0" by auto
  have "(2::rat) powi (ilog2 \<bar>x\<bar> - 52 - 1) < 2 powi (ilog2 \<bar>x\<bar>)"
    by (rule power_int_strict_increasing) simp_all
  with ilog2_bounds(1) [OF a] have 1: "(2::rat) powi (ilog2 \<bar>x\<bar> - 52 - 1) < \<bar>x\<bar>" by linarith
  have "(2::rat) powi (- 1074 - 1) < 2 powi (- 1074)"
    by (rule power_int_strict_increasing) simp_all
  then have 2: "(2::rat) powi (- 1074 - 1) < \<bar>x\<bar>"
    using assms unfolding min_double_def by (rule less_le_trans)
  have "(2::rat) powi (max (ilog2 \<bar>x\<bar> - 52) (- 1074) - 1) < \<bar>x\<bar>"
  proof (cases "ilog2 \<bar>x\<bar> - 52 \<le> - 1074")
    case True
    then have "max (ilog2 \<bar>x\<bar> - 52) (- 1074) = - 1074" by (rule max_absorb2)
    with 2 show ?thesis by (simp only:)
  next
    case False
    then have "max (ilog2 \<bar>x\<bar> - 52) (- 1074) = ilog2 \<bar>x\<bar> - 52" by (simp only: max_def if_False)
    with 1 show ?thesis by (simp only:)
  qed
  with fl_err [OF x0] have key: "\<bar>fl x - x\<bar> < \<bar>x\<bar>" by linarith
  show "0 < x \<Longrightarrow> 0 < fl x" using key by (simp add: abs_if split: if_splits)
  show "x < 0 \<Longrightarrow> fl x < 0" using key by (simp add: abs_if split: if_splits)
qed

lemma fl_zero: "fl 0 = 0"
  by (simp add: fl_def)

lemma on_grid_fl: "on_grid (fl x)"
proof (cases "x = 0")
  case True
  have "(0::rat) = of_int 0 * min_double" by simp
  then show ?thesis unfolding on_grid_def True fl_zero by (rule exI)
next
  case False
  define e where "e = max (ilog2 \<bar>x\<bar> - 52) (- 1074)"
  define r where "r = round_even (x / 2 powi e)"
  have e: "0 \<le> e + 1074" by (simp add: e_def)
  have "(2::rat) powi (e + 1074 + (- 1074)) = 2 powi (e + 1074) * 2 powi (- 1074)"
    by (rule power_int_add) simp
  moreover have "e + 1074 + (- 1074) = e" by simp
  ultimately have 1: "(2::rat) powi e = 2 powi (e + 1074) * min_double"
    by (simp only: min_double_def)
  have 2: "(2::rat) powi (e + 1074) = of_int (2 ^ nat (e + 1074))"
    using e by (simp add: power_int_def)
  have "fl x = of_int r * 2 powi e"
    using False by (simp add: fl_def e_def r_def Let_def)
  also have "\<dots> = of_int (r * 2 ^ nat (e + 1074)) * min_double"
    by (simp only: 1 2 of_int_mult mult.assoc)
  finally show ?thesis unfolding on_grid_def by (rule exI)
qed

lemma on_grid_diff_sign:
  assumes "on_grid a" and "on_grid b" and "a < b"
  shows "min_double \<le> \<bar>b - a\<bar>"
proof -
  from assms obtain m n :: int where
    a: "a = of_int m * min_double" and b: "b = of_int n * min_double"
    unfolding on_grid_def by blast
  note p = min_double_pos
  from assms(3) have "of_int m * min_double < of_int n * min_double"
    by (simp only: a b)
  with p have "(of_int m :: rat) < of_int n"
    by (simp only: mult_less_cancel_right_pos)
  then have "m < n" by (simp only: of_int_less_iff)
  then have "1 \<le> n - m" by simp
  then have "(1::rat) \<le> of_int (n - m)" by (simp only: of_int_1_le_iff)
  then have "1 * min_double \<le> of_int (n - m) * min_double"
    using p by (simp only: mult_le_cancel_right_pos)
  also have "\<dots> = b - a" by (simp only: a b of_int_diff left_diff_distrib)
  finally show ?thesis using assms(3) by simp
qed

lemma fsub_pos_iff:
  assumes "on_grid a" and "on_grid b"
  shows "0 < fsub b a \<longleftrightarrow> a < b"
proof (cases a b rule: linorder_cases)
  case less
  from fl_sign(1) [OF on_grid_diff_sign [OF assms less]] less
  show ?thesis by (simp add: fsub_def)
next
  case equal
  then show ?thesis by (simp add: fsub_def fl_zero)
next
  case greater
  from on_grid_diff_sign [OF assms(2) assms(1) greater]
  have "min_double \<le> \<bar>b - a\<bar>" by (simp add: abs_minus_commute)
  from fl_sign(2) [OF this] greater
  show ?thesis by (simp add: fsub_def)
qed

lemma on_grid_getCombinedScore: "on_grid (getCombinedScore s c)"
  by (simp add: getCombinedScore_def fadd_def on_grid_fl)

text \<open>The two literals, and the scores of the scenarios.\<close>

lemma fl_7_10: "fl (7/10) = 3152519739159347 / 4503599627370496"
  by code_simp

lemma fl_3_10: "fl (3/10) = 5404319552844595 / 18014398509481984"
  by code_simp

lemma getCombinedScore_90_71: "getCombinedScore 90 71 = 1349320669606707 / 17592186044416"
  by code_simp

lemma fl_767_10: "fl (767/10) = 5397282678426829 / 70368744177664"
  by code_simp

lemma getCombinedScore_0_71: "getCombinedScore 0 71 = 6994653171259801 / 140737488355328"
  by code_simp

text \<open>Underflow: a product of the smallest double and \<^verbatim>\<open>0.3\<close> is zero.\<close>

lemma round_even_small: "\<bar>y\<bar> < 1/2 \<Longrightarrow> round_even y = 0"
proof -
  assume a: "\<bar>y\<bar> < 1/2"
  show ?thesis
  proof (cases "0 \<le> y")
    case True
    with a have "\<lfloor>y\<rfloor> = 0" by (simp add: floor_eq_iff)
    with a True show ?thesis by (simp add: round_even_def Let_def)
  next
    case False
    with a have f: "\<lfloor>y\<rfloor> = - 1" by (simp add: floor_eq_iff)
    from a False have "1/2 < y - of_int (- 1)" by simp
    with f show ?thesis by (simp add: round_even_def Let_def)
  qed
qed

lemma fl_underflow:
  assumes "\<bar>x\<bar> < min_double / 2"
  shows "fl x = 0"
proof (cases "x = 0")
  case True
  then show ?thesis by (simp add: fl_def)
next
  case False
  then have a: "0 < \<bar>x\<bar>" by simp
  have "min_double / 2 = 2 powi (- 1075)"
    unfolding min_double_def using power_int_diff [of "2::rat" "- 1074" 1] by simp
  with assms have "\<bar>x\<bar> < 2 powi (- 1075)" by (simp only:)
  from ilog2_less [OF a this] have e: "max (ilog2 \<bar>x\<bar> - 52) (- 1074) = - 1074" by simp
  have p: "0 < min_double" by (rule min_double_pos)
  have "\<bar>x / min_double\<bar> = \<bar>x\<bar> / min_double" using p by simp
  also have "\<dots> < 1/2" using assms p by (simp add: field_simps)
  finally have "round_even (x / min_double) = 0" by (rule round_even_small)
  then show ?thesis
    using False by (simp only: fl_def e Let_def min_double_def [symmetric]) simp
qed

lemma underflow_example: "getCombinedScore min_double 0 = 0"
proof -
  have p: "0 < min_double" by (rule min_double_pos)
  have "fl (3/10) < 1/2" by (simp add: fl_3_10)
  with p have "min_double * fl (3/10) < min_double * (1/2)"
    by (simp only: mult_less_cancel_left_pos)
  moreover have "0 < fl (3/10)" by (simp add: fl_3_10)
  with p have "0 < min_double * fl (3/10)" by (rule mult_pos_pos)
  ultimately have "\<bar>min_double * fl (3/10)\<bar> < min_double / 2" by simp
  then have "fl (min_double * fl (3/10)) = 0" by (rule fl_underflow)
  then show ?thesis by (simp add: getCombinedScore_def fadd_def fmul_def fl_zero)
qed

text \<open>The error of one rounding, relative to the value, in the whole range.\<close>

lemma min_double_half: "min_double / 2 = 2 powi (- 1075)"
  unfolding min_double_def using power_int_diff [of "2::rat" "- 1074" 1] by simp

lemma fl_rel_err: "\<bar>fl x - x\<bar> \<le> \<bar>x\<bar> / 2 ^ 53 + min_double / 2"
proof (cases "x = 0")
  case True
  then show ?thesis using min_double_pos by (simp add: fl_zero)
next
  case False
  then have a: "0 < \<bar>x\<bar>" by simp
  note p = min_double_pos
  show ?thesis
  proof (cases "ilog2 \<bar>x\<bar> - 52 \<le> - 1074")
    case True
    then have "max (ilog2 \<bar>x\<bar> - 52) (- 1074) - 1 = - 1075" by simp
    with fl_err [OF False] have "\<bar>fl x - x\<bar> \<le> min_double / 2"
      by (simp only: min_double_half)
    moreover have "0 \<le> \<bar>x\<bar> / 2 ^ 53" by simp
    ultimately show ?thesis by linarith
  next
    case False
    then have "max (ilog2 \<bar>x\<bar> - 52) (- 1074) - 1 = ilog2 \<bar>x\<bar> - 53" by simp
    with fl_err [OF \<open>x \<noteq> 0\<close>] have "\<bar>fl x - x\<bar> \<le> 2 powi (ilog2 \<bar>x\<bar> - 53)"
      by (simp only:)
    also have "\<dots> = 2 powi (ilog2 \<bar>x\<bar>) / 2 ^ 53"
      using power_int_diff [of "2::rat" "ilog2 \<bar>x\<bar>" 53] by simp
    also have "\<dots> \<le> \<bar>x\<bar> / 2 ^ 53"
      using ilog2_bounds(1) [OF a] by (simp add: divide_right_mono)
    finally show ?thesis using p by linarith
  qed
qed


text \<open>A value below the overflow threshold rounds to a finite double.\<close>

lemma fl_no_overflow:
  assumes "\<bar>x\<bar> < 2 ^ 1024 - 2 ^ 970"
  shows "\<bar>fl x\<bar> \<le> max_double"
proof (cases "x = 0")
  case True
  then show ?thesis by (simp add: fl_zero max_double_def)
next
  case False
  then have a: "0 < \<bar>x\<bar>" by simp
  have "\<bar>x\<bar> < 2 powi 1024" using assms by simp
  from ilog2_less [OF a this] have il: "ilog2 \<bar>x\<bar> \<le> 1023" by simp
  show ?thesis
  proof (cases "ilog2 \<bar>x\<bar> = 1023")
    case True
    define r where "r = round_even (x / 2 ^ 971)"
    have flx: "fl x = of_int r * 2 ^ 971"
      using False by (simp add: fl_def True Let_def r_def)
    have "\<bar>x / 2 ^ 971\<bar> = \<bar>x\<bar> / 2 ^ 971" by simp
    also have "\<dots> < (2 ^ 1024 - 2 ^ 970) / 2 ^ 971"
      using assms by (simp only: divide_strict_right_mono zero_less_power zero_less_numeral)
    also have "\<dots> = 2 ^ 53 - 1/2" by simp
    finally have y: "\<bar>x / 2 ^ 971\<bar> < 2 ^ 53 - 1/2" .
    from round_even_err [of "x / 2 ^ 971"] y have "\<bar>(of_int r :: rat)\<bar> < 2 ^ 53"
      unfolding r_def by linarith
    then have "(of_int \<bar>r\<bar> :: rat) < of_int (2 ^ 53)" by simp
    then have "\<bar>r\<bar> < 2 ^ 53" by (simp only: of_int_less_iff)
    then have "\<bar>r\<bar> \<le> 2 ^ 53 - 1" by simp
    then have "(of_int \<bar>r\<bar> :: rat) \<le> of_int (2 ^ 53 - 1)" by (simp only: of_int_le_iff)
    then have "\<bar>(of_int r :: rat)\<bar> \<le> 2 ^ 53 - 1" by simp
    then have "\<bar>(of_int r :: rat)\<bar> * 2 ^ 971 \<le> (2 ^ 53 - 1) * 2 ^ 971"
      by (rule mult_right_mono) simp
    then show ?thesis by (simp add: flx max_double_def abs_mult)
  next
    case False
    with il have il': "ilog2 \<bar>x\<bar> + 1 \<le> 1023" by simp
    have "\<bar>x\<bar> < 2 powi (ilog2 \<bar>x\<bar> + 1)" by (rule ilog2_bounds(2) [OF a])
    also have "\<dots> \<le> 2 powi 1023" using il' by (rule power_int_increasing) simp
    finally have x: "\<bar>x\<bar> < 2 ^ 1023" by simp
    have "max (ilog2 \<bar>x\<bar> - 52) (- 1074) - 1 \<le> 970" using il' by simp
    then have "(2::rat) powi (max (ilog2 \<bar>x\<bar> - 52) (- 1074) - 1) \<le> 2 powi 970"
      by (rule power_int_increasing) simp
    with fl_err [OF \<open>x \<noteq> 0\<close>] have "\<bar>fl x - x\<bar> \<le> 2 ^ 970" by simp
    with x have "\<bar>fl x\<bar> < 2 ^ 1023 + 2 ^ 970" by linarith
    then show ?thesis by (simp add: max_double_def)
  qed
qed


lemma min_double_le_1: "min_double \<le> 1"
proof -
  have "(2::rat) powi (- 1074) \<le> 2 powi 0" by (rule power_int_increasing) simp_all
  then show ?thesis by (simp only: min_double_def power_int_0_right)
qed

text \<open>
  The three roundings of \<open>getCombinedScore\<close>, with the two literals replaced by their
  values: \<open>P\<close> and \<open>Q\<close> are the rounded products, the result is the rounded sum.
\<close>

lemma getCombinedScore_steps:
  assumes P_def: "P = fl (c * (3152519739159347 / 4503599627370496))"
      and Q_def: "Q = fl (s * (5404319552844595 / 18014398509481984))"
  shows "getCombinedScore s c = fl (P + Q)"
    and "\<bar>P - c * (3152519739159347 / 4503599627370496)\<bar>
           \<le> \<bar>c\<bar> * (3152519739159347 / 4503599627370496) / 2 ^ 53 + min_double / 2"
    and "\<bar>Q - s * (5404319552844595 / 18014398509481984)\<bar>
           \<le> \<bar>s\<bar> * (5404319552844595 / 18014398509481984) / 2 ^ 53 + min_double / 2"
    and "\<bar>fl (P + Q) - (P + Q)\<bar> \<le> \<bar>P + Q\<bar> / 2 ^ 53 + min_double / 2"
proof -
  show "getCombinedScore s c = fl (P + Q)"
    by (simp add: getCombinedScore_def fadd_def fmul_def P_def Q_def fl_7_10 fl_3_10)
  have "\<bar>c * (3152519739159347 / 4503599627370496)\<bar>
        = \<bar>c\<bar> * (3152519739159347 / 4503599627370496)"
    by (simp add: abs_mult)
  with fl_rel_err [of "c * (3152519739159347 / 4503599627370496)"]
  show "\<bar>P - c * (3152519739159347 / 4503599627370496)\<bar>
           \<le> \<bar>c\<bar> * (3152519739159347 / 4503599627370496) / 2 ^ 53 + min_double / 2"
    by (simp only: P_def)
  have "\<bar>s * (5404319552844595 / 18014398509481984)\<bar>
        = \<bar>s\<bar> * (5404319552844595 / 18014398509481984)"
    by (simp add: abs_mult)
  with fl_rel_err [of "s * (5404319552844595 / 18014398509481984)"]
  show "\<bar>Q - s * (5404319552844595 / 18014398509481984)\<bar>
           \<le> \<bar>s\<bar> * (5404319552844595 / 18014398509481984) / 2 ^ 53 + min_double / 2"
    by (simp only: Q_def)
  show "\<bar>fl (P + Q) - (P + Q)\<bar> \<le> \<bar>P + Q\<bar> / 2 ^ 53 + min_double / 2"
    by (rule fl_rel_err)
qed

text \<open>The result is the exact weighted sum up to a relative error of \<open>2^-52\<close>.\<close>

lemma getCombinedScore_sum_bound:
  assumes P_def: "P = fl (c * (3152519739159347 / 4503599627370496))"
      and Q_def: "Q = fl (s * (5404319552844595 / 18014398509481984))"
  shows "\<bar>P - c * (7/10)\<bar> \<le> \<bar>c\<bar> * (11 / 10) / 2 ^ 53 + min_double / 2"
    and "\<bar>Q - s * (3/10)\<bar> \<le> \<bar>s\<bar> * (4 / 10) / 2 ^ 53 + min_double / 2"
    and "\<bar>P + Q\<bar> \<le> (\<bar>c\<bar> * (3152519739159347 / 4503599627370496)
                      + \<bar>s\<bar> * (5404319552844595 / 18014398509481984)) * (1 + 1 / 2 ^ 53)
                    + min_double"
proof -
  define C where "C = \<bar>c\<bar>"
  define S where "S = \<bar>s\<bar>"
  have C: "c \<le> C" "- c \<le> C" and S: "s \<le> S" "- s \<le> S" by (simp_all add: C_def S_def)
  note st = getCombinedScore_steps [OF P_def Q_def, folded C_def S_def]
  from st(2) have p1: "P - c * (3152519739159347 / 4503599627370496)
        \<le> C * (3152519739159347 / 4503599627370496) / 2 ^ 53 + min_double / 2"
    and p2: "- (P - c * (3152519739159347 / 4503599627370496))
        \<le> C * (3152519739159347 / 4503599627370496) / 2 ^ 53 + min_double / 2"
    by (simp_all only: abs_le_iff)
  from st(3) have q1: "Q - s * (5404319552844595 / 18014398509481984)
        \<le> S * (5404319552844595 / 18014398509481984) / 2 ^ 53 + min_double / 2"
    and q2: "- (Q - s * (5404319552844595 / 18014398509481984))
        \<le> S * (5404319552844595 / 18014398509481984) / 2 ^ 53 + min_double / 2"
    by (simp_all only: abs_le_iff)
  have "P - c * (7/10) \<le> C * (11 / 10) / 2 ^ 53 + min_double / 2"
    using p1 C by simp
  moreover have "- (P - c * (7/10)) \<le> C * (11 / 10) / 2 ^ 53 + min_double / 2"
    using p2 C by simp
  ultimately show "\<bar>P - c * (7/10)\<bar> \<le> \<bar>c\<bar> * (11 / 10) / 2 ^ 53 + min_double / 2"
    by (simp only: abs_le_iff C_def)
  have "Q - s * (3/10) \<le> S * (4 / 10) / 2 ^ 53 + min_double / 2"
    using q1 S by simp
  moreover have "- (Q - s * (3/10)) \<le> S * (4 / 10) / 2 ^ 53 + min_double / 2"
    using q2 S by simp
  ultimately show "\<bar>Q - s * (3/10)\<bar> \<le> \<bar>s\<bar> * (4 / 10) / 2 ^ 53 + min_double / 2"
    by (simp only: abs_le_iff S_def)
  have "P + Q \<le> (C * (3152519739159347 / 4503599627370496)
                   + S * (5404319552844595 / 18014398509481984)) * (1 + 1 / 2 ^ 53)
                 + min_double"
    using p1 q1 C S by (simp add: field_simps)
  moreover have "- (P + Q) \<le> (C * (3152519739159347 / 4503599627370496)
                   + S * (5404319552844595 / 18014398509481984)) * (1 + 1 / 2 ^ 53)
                 + min_double"
    using p2 q2 C S by (simp add: field_simps)
  ultimately show "\<bar>P + Q\<bar> \<le> (\<bar>c\<bar> * (3152519739159347 / 4503599627370496)
                      + \<bar>s\<bar> * (5404319552844595 / 18014398509481984)) * (1 + 1 / 2 ^ 53)
                    + min_double"
    by (simp only: abs_le_iff C_def S_def)
qed

lemma getCombinedScore_err:
  "\<bar>getCombinedScore s c - (c * (7/10) + s * (3/10))\<bar>
     \<le> (\<bar>c\<bar> + \<bar>s\<bar>) / 2 ^ 52 + 2 * min_double"
proof -
  define P where "P = fl (c * (3152519739159347 / 4503599627370496))"
  define Q where "Q = fl (s * (5404319552844595 / 18014398509481984))"
  define C where "C = \<bar>c\<bar>"
  define S where "S = \<bar>s\<bar>"
  define R where "R = fl (P + Q)"
  define B where "B = \<bar>P + Q\<bar>"
  have CS: "0 \<le> C" "0 \<le> S" by (simp_all add: C_def S_def)
  note st = getCombinedScore_steps [OF P_def Q_def, folded R_def B_def]
  note sb = getCombinedScore_sum_bound [OF P_def Q_def, folded C_def S_def B_def]
  note p = min_double_pos
  from sb(1) have p1: "P - c * (7/10) \<le> C * (11 / 10) / 2 ^ 53 + min_double / 2"
    and p2: "- (P - c * (7/10)) \<le> C * (11 / 10) / 2 ^ 53 + min_double / 2"
    by (simp_all only: abs_le_iff)
  from sb(2) have q1: "Q - s * (3/10) \<le> S * (4 / 10) / 2 ^ 53 + min_double / 2"
    and q2: "- (Q - s * (3/10)) \<le> S * (4 / 10) / 2 ^ 53 + min_double / 2"
    by (simp_all only: abs_le_iff)
  from st(4) have r1: "R - (P + Q) \<le> B / 2 ^ 53 + min_double / 2"
    and r2: "- (R - (P + Q)) \<le> B / 2 ^ 53 + min_double / 2"
    by (simp_all only: abs_le_iff)
  have "R - (c * (7/10) + s * (3/10)) \<le> (C + S) / 2 ^ 52 + 2 * min_double"
    using p1 q1 r1 sb(3) CS p by (simp add: field_simps)
  moreover have "- (R - (c * (7/10) + s * (3/10))) \<le> (C + S) / 2 ^ 52 + 2 * min_double"
    using p2 q2 r2 sb(3) CS p by (simp add: field_simps)
  ultimately have "\<bar>R - (c * (7/10) + s * (3/10))\<bar> \<le> (C + S) / 2 ^ 52 + 2 * min_double"
    by (simp only: abs_le_iff)
  then show ?thesis by (simp only: st(1) R_def C_def S_def)
qed

text \<open>For finite doubles the result is finite: no step overflows.\<close>

lemma getCombinedScore_finite:
  assumes "\<bar>s\<bar> \<le> max_double" and "\<bar>c\<bar> \<le> max_double"
  shows "\<bar>getCombinedScore s c\<bar> \<le> max_double"
proof -
  define P where "P = fl (c * (3152519739159347 / 4503599627370496))"
  define Q where "Q = fl (s * (5404319552844595 / 18014398509481984))"
  define C where "C = \<bar>c\<bar>"
  define S where "S = \<bar>s\<bar>"
  define B where "B = \<bar>P + Q\<bar>"
  note st = getCombinedScore_steps [OF P_def Q_def]
  note sb = getCombinedScore_sum_bound [OF P_def Q_def, folded C_def S_def B_def]
  note p = min_double_le_1
  have "C \<le> (2 ^ 53 - 1) * 2 ^ 971" "S \<le> (2 ^ 53 - 1) * 2 ^ 971"
    using assms by (simp_all only: C_def S_def max_double_def)
  with sb(3) p have "B < 2 ^ 1024 - 2 ^ 970" by (simp add: field_simps)
  then have "\<bar>fl (P + Q)\<bar> \<le> max_double" unfolding B_def by (rule fl_no_overflow)
  then show ?thesis by (simp only: st(1))
qed

text \<open>For percentages the three rounding errors add up to less than \<open>2^-45\<close>.\<close>

lemma powi_m47: "(2::rat) powi (7 - 54) = 1 / 140737488355328"
  by (simp add: power_int_def power_divide)

lemma powi_m49: "(2::rat) powi (5 - 54) = 1 / 562949953421312"
  by (simp add: power_int_def power_divide)

lemma getCombinedScore_percent_err:
  assumes s: "0 \<le> s" "s \<le> 100" and c: "0 \<le> c" "c \<le> 100"
  shows "\<bar>getCombinedScore s c - (c * (7/10) + s * (3/10))\<bar> \<le> 1 / 2 ^ 45"
proof -
  define P where "P = fl (c * fl (7/10))"
  define Q where "Q = fl (s * fl (3/10))"
  have k7: "(- 1021::int) \<le> 7" and k5: "(- 1021::int) \<le> 5" by simp_all
  have "\<bar>c * fl (7/10)\<bar> < 2 powi 7"
    using c by (simp add: fl_7_10 abs_if)
  from fl_err_bound [OF k7 this] have eP: "\<bar>P - c * fl (7/10)\<bar> \<le> 1 / 140737488355328"
    by (simp only: P_def powi_m47)
  have "\<bar>s * fl (3/10)\<bar> < 2 powi 5"
    using s by (simp add: fl_3_10 abs_if)
  from fl_err_bound [OF k5 this] have eQ: "\<bar>Q - s * fl (3/10)\<bar> \<le> 1 / 562949953421312"
    by (simp only: Q_def powi_m49)
  have eP': "\<bar>P - c * (7/10)\<bar> \<le> 1 / 70368744177664"
    using eP c by (simp add: fl_7_10 abs_if split: if_splits)
  have eQ': "\<bar>Q - s * (3/10)\<bar> \<le> 1 / 281474976710656"
    using eQ s by (simp add: fl_3_10 abs_if split: if_splits)
  have "\<bar>P + Q\<bar> < 2 powi 7"
    using eP' eQ' s c by (simp add: abs_if split: if_splits)
  from fl_err_bound [OF k7 this] have eR: "\<bar>fl (P + Q) - (P + Q)\<bar> \<le> 1 / 140737488355328"
    by (simp only: powi_m47)
  have "getCombinedScore s c = fl (P + Q)"
    by (simp add: getCombinedScore_def fadd_def fmul_def P_def Q_def)
  then show ?thesis
    using eR eP' eQ' by (simp add: abs_if split: if_splits)
qed


section \<open>Properties of the ranking\<close>

text \<open>
  On the values \<open>P\<close> that it compares, the comparator is positive exactly when the key of
  its first argument is the smaller one. Then the insertion sort orders by descending key
  and is stable.
\<close>

lemma mset_js_insert: "mset (js_insert cmp x ys) = add_mset x (mset ys)"
  by (induction ys) simp_all

lemma mset_js_sort: "mset (js_sort cmp xs) = mset xs"
  by (induction xs) (simp_all add: js_sort_def mset_js_insert)

lemma set_js_insert: "set (js_insert cmp x ys) = insert x (set ys)"
  by (induction ys) auto

lemma set_js_sort: "set (js_sort cmp xs) = set xs"
  by (metis mset_js_sort set_mset_mset)

lemma sorted_js_insert:
  fixes key :: "'a \<Rightarrow> rat"
  assumes cmp: "\<And>a b. P a \<Longrightarrow> P b \<Longrightarrow> 0 < cmp a b \<longleftrightarrow> key a < key b"
    and x: "P x"
  shows "list_all P ys \<Longrightarrow> sorted_wrt (\<lambda>a b. key b \<le> key a) ys \<Longrightarrow>
         sorted_wrt (\<lambda>a b. key b \<le> key a) (js_insert cmp x ys)"
proof (induction ys)
  case Nil
  then show ?case by simp
next
  case (Cons y ys)
  from Cons.prems(1) have y: "P y" and ys: "list_all P ys" by simp_all
  show ?case
  proof (cases "0 < cmp x y")
    case True
    with Cons.IH [OF ys] Cons.prems(2) cmp [OF x y] show ?thesis
      by (auto simp: set_js_insert)
  next
    case False
    with cmp [OF x y] have "key y \<le> key x" by (simp add: not_less)
    with Cons.prems False show ?thesis by auto
  qed
qed

lemma sorted_js_sort:
  fixes key :: "'a \<Rightarrow> rat"
  assumes cmp: "\<And>a b. P a \<Longrightarrow> P b \<Longrightarrow> 0 < cmp a b \<longleftrightarrow> key a < key b"
  shows "list_all P xs \<Longrightarrow> sorted_wrt (\<lambda>a b. key b \<le> key a) (js_sort cmp xs)"
proof (induction xs)
  case Nil
  then show ?case by (simp add: js_sort_def)
next
  case (Cons x xs)
  from Cons.prems have x: "P x" and xs: "list_all P xs" by simp_all
  from xs have "list_all P (js_sort cmp xs)" by (simp add: list_all_iff set_js_sort)
  from sorted_js_insert [where cmp = cmp and key = key and P = P, OF cmp x this Cons.IH [OF xs]]
  show ?case by (simp add: js_sort_def)
qed

lemma filter_js_insert:
  fixes key :: "'a \<Rightarrow> rat"
  assumes cmp: "\<And>a b. P a \<Longrightarrow> P b \<Longrightarrow> 0 < cmp a b \<longleftrightarrow> key a < key b"
    and x: "P x"
  shows "list_all P ys \<Longrightarrow> sorted_wrt (\<lambda>a b. key b \<le> key a) ys \<Longrightarrow>
         filter (\<lambda>r. key r = k) (js_insert cmp x ys) =
           (if key x = k then x # filter (\<lambda>r. key r = k) ys else filter (\<lambda>r. key r = k) ys)"
proof (induction ys)
  case Nil
  then show ?case by simp
next
  case (Cons y ys)
  from Cons.prems(1) have y: "P y" and ys: "list_all P ys" by simp_all
  show ?case
  proof (cases "0 < cmp x y")
    case True
    then have "key x < key y" using cmp [OF x y] by simp
    with Cons.IH [OF ys] Cons.prems(2) True show ?thesis by auto
  next
    case False
    then show ?thesis by simp
  qed
qed

lemma js_sort_stable:
  fixes key :: "'a \<Rightarrow> rat"
  assumes cmp: "\<And>a b. P a \<Longrightarrow> P b \<Longrightarrow> 0 < cmp a b \<longleftrightarrow> key a < key b"
  shows "list_all P xs \<Longrightarrow>
         filter (\<lambda>r. key r = k) (js_sort cmp xs) = filter (\<lambda>r. key r = k) xs"
proof (induction xs)
  case Nil
  then show ?case by (simp add: js_sort_def)
next
  case (Cons x xs)
  from Cons.prems have x: "P x" and xs: "list_all P xs" by simp_all
  from xs have all: "list_all P (js_sort cmp xs)" by (simp add: list_all_iff set_js_sort)
  have "filter (\<lambda>r. key r = k) (js_sort cmp (x # xs)) =
        filter (\<lambda>r. key r = k) (js_insert cmp x (js_sort cmp xs))"
    by (simp add: js_sort_def)
  also have "\<dots> = (if key x = k then x # filter (\<lambda>r. key r = k) (js_sort cmp xs)
                    else filter (\<lambda>r. key r = k) (js_sort cmp xs))"
    by (rule filter_js_insert [where cmp = cmp and key = key and P = P,
          OF cmp x all sorted_js_sort [where cmp = cmp and key = key and P = P, OF cmp xs]])
  finally show ?case using Cons.IH [OF xs] by simp
qed


lemma combined_with_combined:
  "combined (with_combined members s)
   = getCombinedScore (skillMatchPct s)
       (case find_member members (memberId s) of
          None \<Rightarrow> 0 | Some m \<Rightarrow> calendarPct (dataSources m))"
  by (simp add: with_combined_def Let_def)

lemma on_grid_with_combined: "on_grid (combined (with_combined members s))"
  by (simp only: combined_with_combined on_grid_getCombinedScore)

lemma sortedSuggestions_props:
  fixes members task
  defines "scored \<equiv> map (with_combined members) (suggestions task)"
  shows "sorted_wrt (\<lambda>a b. combined b \<le> combined a) (sortedSuggestions members task)"
    and "filter (\<lambda>r. combined r = k) (sortedSuggestions members task)
         = filter (\<lambda>r. combined r = k) scored"
    and "set (sortedSuggestions members task) = set scored"
    and "mset (sortedSuggestions members task) = mset scored"
proof -
  let ?cmp = "\<lambda>a b :: RankedSuggestion. fsub (combined b) (combined a)"
  let ?key = "combined :: RankedSuggestion \<Rightarrow> rat"
  let ?P = "\<lambda>r :: RankedSuggestion. on_grid (combined r)"
  have cmp: "0 < ?cmp a b \<longleftrightarrow> ?key a < ?key b" if "?P a" "?P b" for a b
    using that by (rule fsub_pos_iff)
  have all: "list_all ?P scored"
    by (simp add: scored_def list_all_iff on_grid_with_combined)
  show "sorted_wrt (\<lambda>a b. combined b \<le> combined a) (sortedSuggestions members task)"
    unfolding sortedSuggestions_def scored_def [symmetric]
    using cmp all by (rule sorted_js_sort [where cmp = ?cmp and key = ?key and P = ?P])
  show "filter (\<lambda>r. combined r = k) (sortedSuggestions members task)
         = filter (\<lambda>r. combined r = k) scored"
    unfolding sortedSuggestions_def scored_def [symmetric]
    using cmp all by (rule js_sort_stable [where cmp = ?cmp and key = ?key and P = ?P])
  show "set (sortedSuggestions members task) = set scored"
    by (simp add: sortedSuggestions_def scored_def set_js_sort)
  show "mset (sortedSuggestions members task) = mset scored"
    by (simp add: sortedSuggestions_def scored_def mset_js_sort)
qed

text \<open>The rows of a ranked list, and the views of the panel.\<close>

lemma map_filter_rows:
  "map (\<lambda>r. (row_rank r, row_suggestion r)) (List.map_filter (\<lambda>r. r)
      (map (\<lambda>(i, s). case find_member members (memberId s) of
                        None \<Rightarrow> None
                      | Some m \<Rightarrow> Some \<lparr>row_suggestion = s, row_member = m, row_rank = i\<rparr>)
        (enumerate n rows)))
   = filter (\<lambda>(i, r). find_member members (memberId r) \<noteq> None) (enumerate n rows)"
  by (induction rows arbitrary: n) (auto simp: List.map_filter_simps split: option.splits)

lemma ranked_rows:
  "map (\<lambda>r. (row_rank r, row_suggestion r))
     (List.map_filter (\<lambda>r. r) (suggestion_rows members ranked))
   = filter (\<lambda>(i, r). find_member members (memberId r) \<noteq> None) (enumerate 0 ranked)"
  by (simp only: suggestion_rows_def map_filter_rows)

lemma ranked_rows_found:
  assumes "r \<in> set (List.map_filter (\<lambda>r. r) (suggestion_rows members ranked))"
  shows "find_member members (memberId (row_suggestion r)) \<noteq> None"
proof -
  have "(row_rank r, row_suggestion r)
      \<in> set (map (\<lambda>r. (row_rank r, row_suggestion r))
               (List.map_filter (\<lambda>r. r) (suggestion_rows members ranked)))"
    unfolding set_map using assms by (rule imageI)
  then show ?thesis by (simp add: ranked_rows)
qed

lemma SuggestionPanel_task:
  assumes "selectedTaskId store = Some sid" and "sid \<noteq> []"
    and "List.find (\<lambda>t. task_id t = sid) (case tasks of None \<Rightarrow> [] | Some ts \<Rightarrow> ts) = Some task"
  shows "SuggestionPanel store tasks members =
     Panel (if (case taskStatusOverrides store sid of None \<Rightarrow> status task | Some st \<Rightarrow> st) \<noteq> Covered
              \<and> \<not> (case pipelineRunning store sid of None \<Rightarrow> False | Some b \<Rightarrow> b)
            then (if 0 < length (sortedSuggestions members task)
                  then Rows (List.map_filter (\<lambda>r. r)
                          (suggestion_rows members (sortedSuggestions members task)))
                  else ScoringCandidates)
            else Hidden)"
  using assms by (simp add: SuggestionPanel_def Let_def)

lemma rendered_rows_shown:
  assumes "selectedTaskId store = Some sid" and "sid \<noteq> []"
    and "List.find (\<lambda>t. task_id t = sid) (case tasks of None \<Rightarrow> [] | Some ts \<Rightarrow> ts) = Some task"
    and "(case taskStatusOverrides store sid of None \<Rightarrow> status task | Some st \<Rightarrow> st) \<noteq> Covered"
    and "\<not> (case pipelineRunning store sid of None \<Rightarrow> False | Some b \<Rightarrow> b)"
  shows "rendered_rows store tasks members
         = List.map_filter (\<lambda>r. r) (suggestion_rows members (sortedSuggestions members task))"
proof (cases "sortedSuggestions members task = []")
  case True
  then show ?thesis
    using assms(4,5)
    by (simp add: rendered_rows_def SuggestionPanel_task [OF assms(1-3)] suggestion_rows_def
          enumerate_eq_zip List.map_filter_simps)
next
  case False
  then show ?thesis
    using assms(4,5)
    by (simp add: rendered_rows_def SuggestionPanel_task [OF assms(1-3)])
qed

lemma rendered_rows_hidden:
  assumes "selectedTaskId store = Some sid"
    and "List.find (\<lambda>t. task_id t = sid) (case tasks of None \<Rightarrow> [] | Some ts \<Rightarrow> ts) = Some task"
    and "(case taskStatusOverrides store sid of None \<Rightarrow> status task | Some st \<Rightarrow> st) = Covered
         \<or> (case pipelineRunning store sid of None \<Rightarrow> False | Some b \<Rightarrow> b)"
  shows "rendered_rows store tasks members = []"
proof (cases "sid = []")
  case True
  with assms(1) show ?thesis by (simp add: rendered_rows_def SuggestionPanel_def)
next
  case False
  from assms(3) show ?thesis
    by (auto simp: rendered_rows_def SuggestionPanel_task [OF assms(1) False assms(2)])
qed

lemma rendered_rows_cases:
  "rendered_rows store tasks members = []
   \<or> (\<exists>task. rendered_rows store tasks members
        = List.map_filter (\<lambda>r. r) (suggestion_rows members (sortedSuggestions members task)))"
proof (cases "selectedTaskId store")
  case None
  then show ?thesis by (simp add: rendered_rows_def SuggestionPanel_def)
next
  case (Some sid)
  note sid = this
  show ?thesis
  proof (cases "sid = []")
    case True
    with sid show ?thesis by (simp add: rendered_rows_def SuggestionPanel_def)
  next
    case False
    show ?thesis
    proof (cases "List.find (\<lambda>t. task_id t = sid) (case tasks of None \<Rightarrow> [] | Some ts \<Rightarrow> ts)")
      case None
      with sid False show ?thesis by (simp add: rendered_rows_def SuggestionPanel_def)
    next
      case (Some task)
      show ?thesis
        by (simp add: rendered_rows_def SuggestionPanel_task [OF sid False Some]) blast
    qed
  qed
qed

lemma rendered_rows_found:
  assumes "r \<in> set (rendered_rows store tasks members)"
  shows "find_member members (memberId (row_suggestion r)) \<noteq> None"
  using rendered_rows_cases [of store tasks members] assms ranked_rows_found by fastforce

lemma ranked_example:
  "map memberId (sortedSuggestions (Some [jordan_lee, sam_ortiz]) task_002)
   = [''mem-1'', ''mem-9'', ''mem-4'']"
  by code_simp

lemma rendered_example:
  "map (\<lambda>r. (row_rank r, memberId (row_suggestion r), tm_id (row_member r)))
     (rendered_rows store_002 (Some [task_001, task_002]) (Some [jordan_lee, sam_ortiz]))
   = [(0, ''mem-1'', ''mem-1''), (2, ''mem-4'', ''mem-4'')]"
  by code_simp

lemma covered_example:
  "rendered_rows store_covered (Some [task_001, task_002]) (Some [jordan_lee, sam_ortiz]) = []"
  by code_simp

lemma merge_suggestion_absent:
  "task_scores (memberId s) = None \<Longrightarrow> merge_suggestion task_scores s = s"
  by (simp add: merge_suggestion_def)

lemma missing_score_example:
  "map combined (concat (map (sortedSuggestions (Some [jordan_lee]))
       (load_tasks [task_001\<lparr>suggestions := [suggest_jordan]\<rparr>] Map.empty)))
     = [getCombinedScore 90 71]"
  by (simp add: load_tasks_def merge_task_def merge_suggestion_def task_001_def suggest_jordan_def
        sortedSuggestions_def js_sort_def with_combined_def find_member_def jordan_lee_def)


section \<open>Properties of the matcher\<close>

lemma ex_max_score:
  fixes sc :: "'a \<Rightarrow> rat"
  shows "ms \<noteq> [] \<Longrightarrow> \<exists>x \<in> set ms. list_all (\<lambda>m'. sc m' \<le> sc x) ms"
proof (induction ms)
  case Nil
  then show ?case by simp
next
  case (Cons m ms)
  show ?case
  proof (cases "ms = []")
    case True
    then show ?thesis by simp
  next
    case False
    with Cons.IH obtain x where x: "x \<in> set ms" "list_all (\<lambda>m'. sc m' \<le> sc x) ms"
      by auto
    show ?thesis
    proof (cases "sc m \<le> sc x")
      case True
      with x show ?thesis by auto
    next
      case False
      with x(2) have "list_all (\<lambda>m'. sc m' \<le> sc m) ms"
        by (auto simp: list_all_iff)
      then show ?thesis by auto
    qed
  qed
qed

lemma best_loop_find:
  fixes n :: string and sc :: "Member \<Rightarrow> rat"
  defines "sc \<equiv> \<lambda>m. ratio n (py_lower (name m))"
  shows "best_loop n ms (br, bm) =
     (case List.find (\<lambda>m. br < sc m \<and> list_all (\<lambda>m'. sc m' \<le> sc m) ms) ms of
        None \<Rightarrow> (br, bm)
      | Some m \<Rightarrow> (sc m, Some m))"
proof (induction ms arbitrary: br bm)
  case Nil
  then show ?case by simp
next
  case (Cons m ms)
  show ?case
  proof (cases "br < sc m")
    case True
    have step: "best_loop n (m # ms) (br, bm) = best_loop n ms (sc m, Some m)"
      using True by (simp add: sc_def)
    show ?thesis
    proof (cases "list_all (\<lambda>m'. sc m' \<le> sc m) ms")
      case all: True
      then have "List.find (\<lambda>x. sc m < sc x \<and> list_all (\<lambda>m'. sc m' \<le> sc x) ms) ms = None"
        by (auto simp: find_None_iff list_all_iff)
      with True all show ?thesis
        unfolding step Cons.IH by simp
    next
      case notall: False
      then obtain y where y: "y \<in> set ms" "sc m < sc y"
        by (auto simp: list_all_iff not_le)
      have "List.find (\<lambda>x. sc m < sc x \<and> list_all (\<lambda>m'. sc m' \<le> sc x) ms) ms
          = List.find (\<lambda>x. br < sc x \<and> list_all (\<lambda>m'. sc m' \<le> sc x) (m # ms)) ms"
      proof (rule find_cong [OF refl])
        fix x assume "x \<in> set ms"
        show "(sc m < sc x \<and> list_all (\<lambda>m'. sc m' \<le> sc x) ms)
            = (br < sc x \<and> list_all (\<lambda>m'. sc m' \<le> sc x) (m # ms))"
          using True y by (fastforce simp: list_all_iff)
      qed
      moreover have "List.find (\<lambda>x. sc m < sc x \<and> list_all (\<lambda>m'. sc m' \<le> sc x) ms) ms \<noteq> None"
      proof -
        from y(1) have "ms \<noteq> []" by auto
        from ex_max_score [OF this, of sc] obtain x where
          x: "x \<in> set ms" "list_all (\<lambda>m'. sc m' \<le> sc x) ms" by auto
        with y have "sc m < sc x" by (auto simp: list_all_iff)
        with x show ?thesis by (auto simp: find_None_iff)
      qed
      ultimately show ?thesis
        unfolding step Cons.IH using True notall by (auto split: option.splits)
    qed
  next
    case False
    have step: "best_loop n (m # ms) (br, bm) = best_loop n ms (br, bm)"
      using False by (simp add: sc_def)
    have "List.find (\<lambda>x. br < sc x \<and> list_all (\<lambda>m'. sc m' \<le> sc x) ms) ms
        = List.find (\<lambda>x. br < sc x \<and> list_all (\<lambda>m'. sc m' \<le> sc x) (m # ms)) ms"
    proof (rule find_cong [OF refl])
      fix x assume "x \<in> set ms"
      show "(br < sc x \<and> list_all (\<lambda>m'. sc m' \<le> sc x) ms)
          = (br < sc x \<and> list_all (\<lambda>m'. sc m' \<le> sc x) (m # ms))"
        using False by auto
    qed
    with False show ?thesis
      unfolding step Cons.IH by simp
  qed
qed

text \<open>The loop of the matcher as a search for the first member of the highest ratio.\<close>

lemma best_member_match_find:
  "best_member_match username members =
     (case List.find
        (\<lambda>m. 0 < ratio (normalise_username username) (py_lower (name m))
           \<and> list_all (\<lambda>m'. ratio (normalise_username username) (py_lower (name m'))
                            \<le> ratio (normalise_username username) (py_lower (name m)))
                 members) members of
        None \<Rightarrow> None
      | Some m \<Rightarrow>
          if 3/4 \<le> ratio (normalise_username username) (py_lower (name m)) then Some m
          else None)"
proof -
  define n where "n = normalise_username username"
  have "best_loop n members (0, None) =
      (case List.find (\<lambda>m. 0 < ratio n (py_lower (name m))
           \<and> list_all (\<lambda>m'. ratio n (py_lower (name m')) \<le> ratio n (py_lower (name m)))
                 members) members of
         None \<Rightarrow> (0, None)
       | Some m \<Rightarrow> (ratio n (py_lower (name m)), Some m))"
    by (rule best_loop_find)
  then show ?thesis
    by (simp add: best_member_match_def n_def [symmetric] split: option.splits)
qed

lemma best_member_match_ratio:
  "best_member_match u roster = Some m \<Longrightarrow>
     3/4 \<le> ratio (normalise_username u) (py_lower (name m))"
  by (auto simp: best_member_match_find split: option.splits if_splits)

lemma best_member_match_single:
  "best_member_match u [m] =
     (if 3/4 \<le> ratio (normalise_username u) (py_lower (name m)) then Some m else None)"
  by (simp add: best_member_match_def Let_def)

lemma normalise_maya: "normalise_username ''maya'' = ''maya''"
  by code_simp

lemma normalise_zzz: "normalise_username ''zzz'' = ''zzz''"
  by code_simp

lemma lower_maya_patel: "py_lower ''Maya Patel'' = ''maya patel''"
  by code_simp

lemma ratio_maya: "ratio ''maya'' ''maya patel'' = 4/7"
  by code_simp

lemma ratio_zzz: "ratio ''zzz'' ''maya patel'' = 0"
  by code_simp


section \<open>Properties of the reconciliation engine\<close>

lemma position_of_nth:
  "m \<in> set ms \<Longrightarrow> position_of m ms < length ms \<and> ms ! position_of m ms = m"
  unfolding position_of_def by (induction ms) auto

lemma position_of_le: "i < length xs \<Longrightarrow> xs ! i = x \<Longrightarrow> position_of x xs \<le> i"
  unfolding position_of_def
proof (induction xs arbitrary: i)
  case Nil
  then show ?case by simp
next
  case (Cons y ys)
  then show ?case by (cases i) auto
qed

lemma find_in_set: "List.find P xs = Some x \<Longrightarrow> x \<in> set xs"
  by (auto simp: find_Some_iff)

lemma best_member_match_in_roster:
  "best_member_match u roster = Some m \<Longrightarrow> m \<in> set roster"
  by (auto simp: best_member_match_find split: option.splits if_splits dest: find_in_set)

lemma slack_update_keeps:
  "name (slack_update state a m) = name m"
  "manualOverrideActive (slack_update state a m) = manualOverrideActive m"
  by (cases state; simp add: slack_update_def)+

text \<open>One step of the pass: the roster, then the counters.\<close>

lemma apply_one_cases:
  assumes "apply_one now (roster, r) a = (roster', r')"
  shows "(roster' = roster
          \<and> r' = r\<lparr>detected := detected r + 1, skipped := skipped r + 1\<rparr>)
       \<or> (\<exists>m state. normalize a now = Some state
            \<and> best_member_match (personReference a) roster = Some m \<and> \<not> manualOverrideActive m
            \<and> roster' = roster[position_of m roster := slack_update state a m]
            \<and> r' = r\<lparr>detected := detected r + 1, applied := applied r + 1,
                     changes := changes r @
                       [\<lparr>change_memberId = member_id m, memberName = name m,
                         matchedReference = personReference a,
                         change_startDate = startDate a, change_endDate = endDate a,
                         change_reason = reason a, coverageBy = coverageReference a,
                         pending = (state = Future)\<rparr>]\<rparr>)"
proof (cases "normalize a now")
  case None
  with assms show ?thesis by (simp add: apply_one_def Let_def)
next
  case (Some state)
  note st = this
  show ?thesis
  proof (cases "best_member_match (personReference a) roster")
    case None
    with st assms show ?thesis by (simp add: apply_one_def Let_def)
  next
    case (Some m)
    note m = this
    show ?thesis
    proof (cases "manualOverrideActive m")
      case True
      with m st assms show ?thesis by (simp add: apply_one_def Let_def)
    next
      case False
      with m st assms have "roster' = roster[position_of m roster := slack_update state a m]"
        and "r' = r\<lparr>detected := detected r + 1, applied := applied r + 1,
                     changes := changes r @
                       [\<lparr>change_memberId = member_id m, memberName = name m,
                         matchedReference = personReference a,
                         change_startDate = startDate a, change_endDate = endDate a,
                         change_reason = reason a, coverageBy = coverageReference a,
                         pending = (state = Future)\<rparr>]\<rparr>"
        by (simp_all add: apply_one_def Let_def)
      with m st False show ?thesis by blast
    qed
  qed
qed

text \<open>One announcement changes no record of a member under manual override, nor any name.\<close>

lemma apply_one_preserves:
  assumes "apply_one now (roster, r) a = (roster', r')"
  shows "length roster' = length roster"
    and "map name roster' = map name roster"
    and "i < length roster \<Longrightarrow> manualOverrideActive (roster ! i) \<Longrightarrow> roster' ! i = roster ! i"
proof -
  from apply_one_cases [OF assms]
  consider (same) "roster' = roster"
    | (upd) m state where "best_member_match (personReference a) roster = Some m"
        "\<not> manualOverrideActive m"
        "roster' = roster[position_of m roster := slack_update state a m]"
    by blast
  note cases = this
  show "length roster' = length roster"
    using cases by cases simp_all
  show "map name roster' = map name roster"
  proof (use cases in cases)
    case same
    then show ?thesis by simp
  next
    case (upd m state)
    from position_of_nth [OF best_member_match_in_roster [OF upd(1)]]
    have p: "position_of m roster < length roster" "roster ! position_of m roster = m"
      by simp_all
    show ?thesis
      unfolding upd(3) using p
      by (simp add: map_update list_update_same_conv slack_update_keeps)
  qed
  show "roster' ! i = roster ! i" if "i < length roster" "manualOverrideActive (roster ! i)"
  proof (use cases in cases)
    case same
    then show ?thesis by simp
  next
    case (upd m state)
    from position_of_nth [OF best_member_match_in_roster [OF upd(1)]]
    have p: "roster ! position_of m roster = m" by simp
    with upd(2) that(2) have "position_of m roster \<noteq> i" by auto
    then show ?thesis unfolding upd(3) by simp
  qed
qed

lemma foldl_apply_one_preserves:
  "foldl (apply_one now) (roster, r) anns = (roster', r') \<Longrightarrow>
     length roster' = length roster \<and> map name roster' = map name roster \<and>
     (\<forall>i < length roster. manualOverrideActive (roster ! i) \<longrightarrow> roster' ! i = roster ! i)"
proof (induction anns arbitrary: roster r)
  case Nil
  then show ?case by simp
next
  case (Cons a anns)
  obtain roster1 r1 where one: "apply_one now (roster, r) a = (roster1, r1)"
    by (cases "apply_one now (roster, r) a")
  with Cons.prems have rest: "foldl (apply_one now) (roster1, r1) anns = (roster', r')"
    by simp
  note p = apply_one_preserves [OF one]
  from Cons.IH [OF rest] p show ?case
    by (metis)
qed

lemma apply_one_counters:
  assumes "apply_one now (roster, r) a = (roster', r')"
  shows "scanned r' = scanned r
    \<and> detected r' = detected r + 1
    \<and> applied r' + skipped r' = applied r + skipped r + 1"
  using apply_one_cases [OF assms] by auto

lemma foldl_apply_one_counters:
  "foldl (apply_one now) (roster, r) anns = (roster', r') \<Longrightarrow>
     scanned r' = scanned r \<and>
     detected r' = detected r + length anns \<and>
     applied r' + skipped r' = applied r + skipped r + length anns"
proof (induction anns arbitrary: roster r)
  case Nil
  then show ?case by simp
next
  case (Cons a anns)
  obtain roster1 r1 where one: "apply_one now (roster, r) a = (roster1, r1)"
    by (cases "apply_one now (roster, r) a")
  with Cons.prems have rest: "foldl (apply_one now) (roster1, r1) anns = (roster', r')"
    by simp
  note c = apply_one_counters [OF one]
  from Cons.IH [OF rest] c show ?case
    by simp
qed

text \<open>The sweep.\<close>

lemma restoreExpired_override:
  "i < length roster \<Longrightarrow> manualOverrideActive (roster ! i) \<Longrightarrow>
     fst (restoreExpired roster now) ! i = roster ! i"
  by (simp add: restoreExpired_def expired_def)

lemma sweep_nth:
  assumes "i < length roster"
  shows "fst (sweep roster now) ! i =
     (if expired (roster ! i) now
      then (roster ! i)\<lparr>availability := Available, isOutOfOffice := False,
                         slackOooStart := None, slackOooUntil := None\<rparr>
      else if due (roster ! i) now
      then (roster ! i)\<lparr>availability := OOO, isOutOfOffice := True, source := SourceSlack\<rparr>
      else roster ! i)"
  using assms by (simp add: sweep_def restoreExpired_def activateDue_def due_def)

lemma sweep_override:
  "i < length roster \<Longrightarrow> manualOverrideActive (roster ! i) \<Longrightarrow>
     fst (sweep roster now) ! i = roster ! i"
  by (simp add: sweep_nth expired_def due_def)




lemma position_of_first:
  assumes "i < length xs" and "xs ! i = x" and "\<forall>j<i. xs ! j \<noteq> x"
  shows "position_of x xs = i"
proof -
  have "takeWhile (\<lambda>y. y \<noteq> x) xs = take i xs"
    using assms by (intro takeWhile_eq_take_P_nth) auto
  with assms(1) show ?thesis by (simp add: position_of_def)
qed

lemma best_member_match_same_names:
  assumes names: "map name roster' = map name roster"
    and m: "best_member_match u roster = Some m"
  shows "best_member_match u roster' = Some (roster' ! position_of m roster)"
proof -
  define n where "n = normalise_username u"
  define sc :: "Member \<Rightarrow> rat" where "sc = (\<lambda>m. ratio n (py_lower (name m)))"
  let ?Q = "\<lambda>ms m. 0 < sc m \<and> list_all (\<lambda>m'. sc m' \<le> sc m) ms"
  have code: "best_member_match u ms =
      (case List.find (?Q ms) ms of None \<Rightarrow> None
       | Some m \<Rightarrow> if 3/4 \<le> sc m then Some m else None)" for ms
    unfolding sc_def n_def by (rule best_member_match_find)
  have len: "length roster' = length roster"
    using names by (metis length_map)
  have sc_eq: "sc (roster' ! j) = sc (roster ! j)" if "j < length roster" for j
  proof -
    from names that len have "name (roster' ! j) = name (roster ! j)"
      by (metis nth_map)
    then show ?thesis by (simp add: sc_def)
  qed
  have Q_eq: "?Q roster' (roster' ! j) = ?Q roster (roster ! j)" if "j < length roster" for j
    using that len sc_eq by (simp add: list_all_length)
  from m obtain m0 where f: "List.find (?Q roster) roster = Some m0"
    by (auto simp: code split: option.splits)
  with m have m0: "m0 = m" "3/4 \<le> sc m"
    by (auto simp: code split: if_splits)
  from f obtain i where i: "i < length roster" "?Q roster (roster ! i)" "m0 = roster ! i"
    "\<forall>j<i. \<not> ?Q roster (roster ! j)"
    unfolding find_Some_iff by blast
  have pos: "position_of m roster = i"
  proof (rule position_of_first)
    show "i < length roster" by (rule i(1))
    show "roster ! i = m" using i(3) m0(1) by simp
    show "\<forall>j<i. roster ! j \<noteq> m"
    proof (intro allI impI notI)
      fix j assume "j < i" "roster ! j = m"
      with i(4) have "\<not> ?Q roster m" by auto
      with i(2) i(3) m0(1) show False by simp
    qed
  qed
  have "List.find (?Q roster') roster' = Some (roster' ! i)"
    unfolding find_Some_iff
  proof (intro exI [of _ i] conjI)
    show "i < length roster'" using i(1) len by simp
    show "0 < sc (roster' ! i)" using Q_eq [OF i(1)] i(2) by simp
    show "list_all (\<lambda>m'. sc m' \<le> sc (roster' ! i)) roster'"
      using Q_eq [OF i(1)] i(2) by simp
    show "roster' ! i = roster' ! i" by simp
    show "\<forall>j<i. \<not> ?Q roster' (roster' ! j)"
      using i(1) i(4) Q_eq by auto
  qed
  moreover have "3/4 \<le> sc (roster' ! i)"
    using sc_eq [OF i(1)] i(3) m0 by simp
  ultimately show ?thesis
    by (simp add: code pos)
qed

text \<open>
  After the matched record has been changed at its position, with the names as they were,
  the matcher finds the changed record, and at the same position.
\<close>

lemma match_after_update:
  assumes m: "best_member_match u roster = Some m"
    and names: "name m' = name m"
  defines "p \<equiv> position_of m roster"
  shows "best_member_match u (roster[p := m']) = Some m'"
    and "position_of m' (roster[p := m']) = p"
    and "p < length roster"
proof -
  from position_of_nth [OF best_member_match_in_roster [OF m]]
  have p: "p < length roster" "roster ! p = m" by (simp_all add: p_def)
  show "p < length roster" by (rule p(1))
  let ?roster' = "roster[p := m']"
  have at_p: "?roster' ! p = m'" using p(1) by simp
  have nm: "map name ?roster' = map name roster"
    using p names by (simp add: map_update list_update_same_conv)
  from best_member_match_same_names [OF nm m]
  show match': "best_member_match u ?roster' = Some m'"
    by (simp only: p_def [symmetric] at_p)
  define q where "q = position_of m' ?roster'"
  from position_of_nth [OF best_member_match_in_roster [OF match']]
  have q: "q < length ?roster'" by (simp add: q_def)
  from best_member_match_same_names [OF nm [symmetric] match']
  have "best_member_match u roster = Some (roster ! q)" by (simp only: q_def)
  with m have "roster ! q = m" by simp
  with q have "p \<le> q" unfolding p_def by (intro position_of_le) simp_all
  moreover have "q \<le> p" unfolding q_def using p(1) at_p by (intro position_of_le) simp_all
  ultimately show "position_of m' ?roster' = p" by (simp add: q_def)
qed

lemma position_jordan: "position_of jordan [maya_patel, jordan] = 1"
  by code_simp

lemma match_jordan: "best_member_match ''@jordan.lee'' [maya_patel, jordan] = Some jordan"
  by code_simp



lemma match_jordan_stored:
  "best_member_match ''@jordan.lee''
     [maya_patel, jordan\<lparr>slackOooStart := Some 12, slackOooUntil := e\<rparr>]
   = Some (jordan\<lparr>slackOooStart := Some 12, slackOooUntil := e\<rparr>)"
proof -
  have "name (jordan\<lparr>slackOooStart := Some 12, slackOooUntil := e\<rparr>) = name jordan"
    by simp
  from match_after_update(1) [OF match_jordan this]
  show ?thesis by (simp add: position_jordan)
qed




section \<open>Claims\<close>

text \<open>
  C1. A member whose manual override is active keeps its availability, its
  out-of-office flag and its \<open>slackOooUntil\<close> through an apply pass and through an
  expiry sweep, for every list of announcements and every time; so it does through the
  sweep that also activates the stored announcements.
\<close>

theorem manual_override_untouched:
  assumes "i < length roster" and "manualOverrideActive (roster ! i)"
  shows "(let after = fst (applyAnnouncements announcements roster now) in
            length after = length roster
          \<and> availability (after ! i) = availability (roster ! i)
          \<and> isOutOfOffice (after ! i) = isOutOfOffice (roster ! i)
          \<and> slackOooUntil (after ! i) = slackOooUntil (roster ! i))
       \<and> (let after = fst (restoreExpired roster now) in
            length after = length roster
          \<and> availability (after ! i) = availability (roster ! i)
          \<and> isOutOfOffice (after ! i) = isOutOfOffice (roster ! i)
          \<and> slackOooUntil (after ! i) = slackOooUntil (roster ! i))
       \<and> (let after = fst (sweep roster now) in
            length after = length roster
          \<and> availability (after ! i) = availability (roster ! i)
          \<and> isOutOfOffice (after ! i) = isOutOfOffice (roster ! i)
          \<and> slackOooUntil (after ! i) = slackOooUntil (roster ! i))"
proof -
  obtain roster' r' where ap: "applyAnnouncements announcements roster now = (roster', r')"
    by (cases "applyAnnouncements announcements roster now")
  from foldl_apply_one_preserves [OF ap [unfolded applyAnnouncements_def]] assms
  have "length roster' = length roster" "roster' ! i = roster ! i" by simp_all
  moreover have "length (fst (restoreExpired roster now)) = length roster"
    by (simp add: restoreExpired_def)
  moreover have "length (fst (sweep roster now)) = length roster"
    by (simp add: sweep_def restoreExpired_def activateDue_def)
  ultimately show ?thesis
    using restoreExpired_override [OF assms, of now] sweep_override [OF assms, of now]
    by (simp add: ap Let_def)
qed

theorem manual_override_untouched_witness:
  "(0::nat) < length [jordan_overridden] \<and> manualOverrideActive ([jordan_overridden] ! 0)
   \<and> fst (applyAnnouncements [announce_jordan (Some 8) (Some 12)] [jordan_overridden] 10)
       = [jordan_overridden]
   \<and> fst (restoreExpired [jordan_overridden] 10) = [jordan_overridden]
   \<and> fst (sweep [jordan_overridden] 10) = [jordan_overridden]
   \<and> (let after = fst (applyAnnouncements [announce_jordan (Some 8) (Some 12)] [jordan_overridden] 10) in
            length after = length [jordan_overridden]
          \<and> availability (after ! 0) = availability ([jordan_overridden] ! 0)
          \<and> isOutOfOffice (after ! 0) = isOutOfOffice ([jordan_overridden] ! 0)
          \<and> slackOooUntil (after ! 0) = slackOooUntil ([jordan_overridden] ! 0))
   \<and> (let after = fst (restoreExpired [jordan_overridden] 10) in
            length after = length [jordan_overridden]
          \<and> availability (after ! 0) = availability ([jordan_overridden] ! 0)
          \<and> isOutOfOffice (after ! 0) = isOutOfOffice ([jordan_overridden] ! 0)
          \<and> slackOooUntil (after ! 0) = slackOooUntil ([jordan_overridden] ! 0))
   \<and> (let after = fst (sweep [jordan_overridden] 10) in
            length after = length [jordan_overridden]
          \<and> availability (after ! 0) = availability ([jordan_overridden] ! 0)
          \<and> isOutOfOffice (after ! 0) = isOutOfOffice ([jordan_overridden] ! 0)
          \<and> slackOooUntil (after ! 0) = slackOooUntil ([jordan_overridden] ! 0))"
proof -
  have h1: "(0::nat) < length [jordan_overridden]" by simp
  have h2: "manualOverrideActive ([jordan_overridden] ! 0)"
    by (simp add: jordan_overridden_def)
  have e1: "fst (applyAnnouncements [announce_jordan (Some 8) (Some 12)] [jordan_overridden] 10)
       = [jordan_overridden]"
    by code_simp
  have e2: "fst (restoreExpired [jordan_overridden] 10) = [jordan_overridden]"
    by code_simp
  have e3: "fst (sweep [jordan_overridden] 10) = [jordan_overridden]"
    by code_simp
  from manual_override_untouched [OF h1 h2, of "[announce_jordan (Some 8) (Some 12)]" 10]
    h1 h2 e1 e2 e3
  show ?thesis by blast
qed

text \<open>
  C2 (as amended). \<open>getCombinedScore\<close> weighs the calendar percentage by 0.7 and the skill
  match by 0.3 in double arithmetic: each product and the sum are rounded. For all finite
  doubles the result is a finite double and differs from the exact value
  \<open>calendarPct * 7/10 + skillMatchPct * 3/10\<close> by at most
  \<open>(\<bar>calendarPct\<bar> + \<bar>skillMatchPct\<bar>) * 2^-52 + 2 * min_double\<close>, and by at most \<open>2^-45\<close>
  for percentages between 0 and 100. It need not be equal to it: for the skill match 90
  and the calendar percentage 71 it is \<open>1349320669606707 / 2^44\<close>, the double
  76.69999999999999.
\<close>

theorem getCombinedScore_weighted:
  assumes "\<bar>s\<bar> \<le> max_double" and "\<bar>c\<bar> \<le> max_double"
  shows "\<bar>getCombinedScore s c - (c * (7/10) + s * (3/10))\<bar>
           \<le> (\<bar>c\<bar> + \<bar>s\<bar>) / 2 ^ 52 + 2 * min_double
       \<and> \<bar>getCombinedScore s c\<bar> \<le> max_double
       \<and> (0 \<le> s \<and> s \<le> 100 \<and> 0 \<le> c \<and> c \<le> 100 \<longrightarrow>
            \<bar>getCombinedScore s c - (c * (7/10) + s * (3/10))\<bar> \<le> 1 / 2 ^ 45)
       \<and> getCombinedScore 90 71 = 1349320669606707 / 2 ^ 44"
proof -
  have "\<bar>getCombinedScore s c - (c * (7/10) + s * (3/10))\<bar>
           \<le> (\<bar>c\<bar> + \<bar>s\<bar>) / 2 ^ 52 + 2 * min_double"
    by (rule getCombinedScore_err)
  moreover have "\<bar>getCombinedScore s c\<bar> \<le> max_double"
    using assms by (rule getCombinedScore_finite)
  moreover have "\<bar>getCombinedScore s c - (c * (7/10) + s * (3/10))\<bar> \<le> 1 / 2 ^ 45"
    if "0 \<le> s \<and> s \<le> 100 \<and> 0 \<le> c \<and> c \<le> 100"
    using that by (intro getCombinedScore_percent_err) simp_all
  moreover have "getCombinedScore 90 71 = 1349320669606707 / 2 ^ 44"
    by (simp add: getCombinedScore_90_71)
  ultimately show ?thesis by blast
qed

theorem getCombinedScore_weighted_witness:
  "\<bar>90 :: rat\<bar> \<le> max_double \<and> \<bar>71 :: rat\<bar> \<le> max_double
   \<and> \<bar>getCombinedScore 90 71 - (71 * (7/10) + 90 * (3/10))\<bar>
        \<le> (\<bar>71\<bar> + \<bar>90\<bar>) / 2 ^ 52 + 2 * min_double
   \<and> \<bar>getCombinedScore 90 71\<bar> \<le> max_double
   \<and> \<bar>getCombinedScore 90 71 - (71 * (7/10) + 90 * (3/10))\<bar> \<le> 1 / 2 ^ 45
   \<and> getCombinedScore 90 71 = 1349320669606707 / 2 ^ 44"
proof -
  have h: "\<bar>90 :: rat\<bar> \<le> max_double" "\<bar>71 :: rat\<bar> \<le> max_double"
    by (simp_all add: max_double_def)
  have r: "(0::rat) \<le> 90 \<and> (90::rat) \<le> 100 \<and> (0::rat) \<le> 71 \<and> (71::rat) \<le> 100"
    by simp
  from getCombinedScore_weighted [OF h] h r show ?thesis by blast
qed

text \<open>
  C2 as stated fails at the spec's own scenario: for \<open>skillMatchPct = 90\<close> and
  \<open>calendarPct = 71\<close> the code returns the double 76.69999999999999
  (\<open>1349320669606707 / 2^44\<close>), which is neither the rational 76.7 nor the double that
  the literal \<^verbatim>\<open>76.7\<close> denotes.
\<close>

theorem getCombinedScore_not_76_7:
  "getCombinedScore 90 71 = 1349320669606707 / 17592186044416
   \<and> getCombinedScore 90 71 \<noteq> 767 / 10
   \<and> getCombinedScore 90 71 \<noteq> fl (767 / 10)"
  by (simp add: getCombinedScore_90_71 fl_767_10)

text \<open>
  C3 (as amended). The matcher removes every leading \<^verbatim>\<open>@\<close> of the reference, replaces
  each \<^verbatim>\<open>.\<close> by a space, trims and lowercases; it returns the first member, in roster
  order, whose ratio against the lowercased name is the highest of the roster, if that
  ratio is at least 0.75, and nothing otherwise.
\<close>

theorem best_member_match_first_best:
  "best_member_match username members = select_best (normalise_username username) members
   \<and> normalise_username username
       = py_lower (py_strip (py_replace (CHR ''.'') (CHR '' '')
           (dropWhile (\<lambda>c. c = CHR ''@'') username)))"
proof -
  define n where "n = normalise_username username"
  define sc :: "Member \<Rightarrow> rat" where "sc = (\<lambda>m. ratio n (py_lower (name m)))"
  let ?P = "\<lambda>m. list_all (\<lambda>m'. sc m' \<le> sc m) members"
  let ?Q = "\<lambda>m. 0 < sc m \<and> list_all (\<lambda>m'. sc m' \<le> sc m) members"
  have code: "best_member_match username members =
      (case List.find ?Q members of None \<Rightarrow> None
       | Some m \<Rightarrow> if 3/4 \<le> sc m then Some m else None)"
    unfolding sc_def n_def by (rule best_member_match_find)
  have spec: "select_best n members =
      (case List.find ?P members of None \<Rightarrow> None
       | Some m \<Rightarrow> if 3/4 \<le> sc m then Some m else None)"
    unfolding select_best_def sc_def by (rule refl)
  have "best_member_match username members = select_best n members"
  proof (cases "List.find ?P members")
    case None
    then have "List.find ?Q members = None"
      by (auto simp: find_None_iff)
    with None show ?thesis by (simp add: code spec)
  next
    case (Some m)
    then obtain i where i: "i < length members" "members ! i = m" "?P m"
      "\<forall>j<i. \<not> ?P (members ! j)"
      by (auto simp: find_Some_iff)
    show ?thesis
    proof (cases "0 < sc m")
      case True
      have "List.find ?Q members = Some m"
        unfolding find_Some_iff using i True by (intro exI [of _ i]) auto
      with Some show ?thesis by (simp add: code spec)
    next
      case False
      have "\<not> ?Q x" if "x \<in> set members" for x
      proof
        assume q: "?Q x"
        from i(3) that have "sc x \<le> sc m" by (auto simp: list_all_iff)
        with q False show False by simp
      qed
      then have "List.find ?Q members = None"
        by (auto simp: find_None_iff)
      with Some False show ?thesis by (simp add: code spec)
    qed
  qed
  then show ?thesis
    by (simp add: n_def normalise_username_def py_lstrip_def)
qed

text \<open>
  C3 as stated fails where more than one \<^verbatim>\<open>@\<close> leads the reference: the code strips
  all of them and matches \<^verbatim>\<open>@@@ab\<close> to the member Ab (ratio 1), while stripping one
  leading \<^verbatim>\<open>@\<close> leaves \<^verbatim>\<open>@@ab\<close>, of ratio 2/3 against \<^verbatim>\<open>ab\<close>.
\<close>

theorem best_member_match_strips_every_at:
  "best_member_match ''@@@ab'' [member_named ''mem-1'' ''Ab''] = Some (member_named ''mem-1'' ''Ab'')
   \<and> match_spec ''@@@ab'' [member_named ''mem-1'' ''Ab''] = None"
  by code_simp

text \<open>
  C4. After an apply pass \<open>scanned\<close> is the number of announcements,
  \<open>scanned \<ge> detected \<ge> applied\<close>, and \<open>applied + skipped = detected\<close>: every detected
  announcement is either applied or skipped.
\<close>

theorem sync_counters:
  "(let r = snd (applyAnnouncements announcements roster now) in
      scanned r = length announcements
    \<and> detected r \<le> scanned r
    \<and> applied r \<le> detected r
    \<and> applied r + skipped r = detected r)"
proof -
  obtain roster' r' where ap: "applyAnnouncements announcements roster now = (roster', r')"
    by (cases "applyAnnouncements announcements roster now")
  from foldl_apply_one_counters [OF ap [unfolded applyAnnouncements_def]]
  have "scanned r' = length announcements" "detected r' = length announcements"
    "applied r' + skipped r' = length announcements"
    by simp_all
  then show ?thesis
    by (simp add: ap Let_def)
qed




text \<open>
  C6 (as amended). The ratio of \<^verbatim>\<open>maya\<close> against \<^verbatim>\<open>maya patel\<close> is
  \<open>2 * 4 / (4 + 10) = 4/7\<close>, below 0.75: the matcher never returns a member named
  Maya Patel for the reference \<^verbatim>\<open>maya\<close>, whatever the roster, and for the roster of
  that one member it returns nothing, as it does for \<^verbatim>\<open>zzz\<close>.
\<close>

theorem maya_below_threshold:
  assumes "name m = ''Maya Patel''"
  shows "ratio (normalise_username ''maya'') (py_lower (name m)) = 4/7
       \<and> best_member_match ''maya'' roster \<noteq> Some m
       \<and> best_member_match ''maya'' [m] = None
       \<and> best_member_match ''zzz'' [m] = None"
proof -
  have r: "ratio (normalise_username ''maya'') (py_lower (name m)) = 4/7"
    by (simp only: assms normalise_maya lower_maya_patel ratio_maya)
  have "best_member_match ''maya'' roster \<noteq> Some m"
    using best_member_match_ratio [of "''maya''" roster m] r by auto
  moreover have "best_member_match ''maya'' [m] = None"
    by (simp only: best_member_match_single r) simp
  moreover have "best_member_match ''zzz'' [m] = None"
    by (simp only: best_member_match_single assms normalise_zzz lower_maya_patel ratio_zzz) simp
  ultimately show ?thesis using r by blast
qed

theorem maya_below_threshold_witness:
  "name maya_patel = ''Maya Patel''
   \<and> ratio (normalise_username ''maya'') (py_lower (name maya_patel)) = 4/7
   \<and> best_member_match ''maya'' [jordan, maya_patel] \<noteq> Some maya_patel
   \<and> best_member_match ''maya'' [maya_patel] = None
   \<and> best_member_match ''zzz'' [maya_patel] = None"
proof -
  have h: "name maya_patel = ''Maya Patel''" by (simp add: maya_patel_def)
  from maya_below_threshold [OF h, of "[jordan, maya_patel]"] h show ?thesis by blast
qed

text \<open>
  C6 as stated fails: \<^verbatim>\<open>maya\<close> is not matched to Maya Patel.
\<close>

theorem maya_not_matched:
  "best_member_match ''maya'' [maya_patel] = None"
  by code_simp


text \<open>
  C8. A second run of \<open>restoreExpired\<close> at the same time leaves the roster as the first
  run left it and restores no member.
\<close>

theorem restoreExpired_idempotent:
  "restoreExpired (fst (restoreExpired roster now)) now = (fst (restoreExpired roster now), [])"
proof -
  let ?f = "\<lambda>m. if expired m now
               then m\<lparr>availability := Available, isOutOfOffice := False,
                      slackOooStart := None, slackOooUntil := None\<rparr>
               else m"
  have ne: "\<not> expired (?f m) now" for m
    by (simp add: expired_def)
  then have "filter (\<lambda>m. expired m now) (map ?f roster) = []"
    by (induction roster) simp_all
  moreover have "map ?f (map ?f roster) = map ?f roster"
    using ne by simp
  ultimately show ?thesis
    by (simp add: restoreExpired_def)
qed

text \<open>
  C9 (as amended). For a pair of a task and a member for which the scores hold no
  entry, the merge leaves the suggestion as it is: it keeps its own \<open>skillMatchPct\<close>
  and is not set to 0. The suggestion is in the merged task and in the ranked list, with
  the score computed from its own \<open>skillMatchPct\<close> and the calendar percentage of its
  member (0 without a member).
\<close>

theorem missing_score_keeps_own_value:
  assumes "task \<in> set tasks" and "s \<in> set (suggestions task)"
    and "(case scores (task_id task) of None \<Rightarrow> None | Some ts \<Rightarrow> ts (memberId s)) = None"
  shows "merge_task scores task \<in> set (load_tasks tasks scores)
       \<and> s \<in> set (suggestions (merge_task scores task))
       \<and> with_combined members s \<in> set (sortedSuggestions members (merge_task scores task))
       \<and> combined (with_combined members s)
           = getCombinedScore (skillMatchPct s)
               (case find_member members (memberId s) of
                  None \<Rightarrow> 0 | Some m \<Rightarrow> calendarPct (dataSources m))"
proof -
  let ?ts = "case scores (task_id task) of None \<Rightarrow> Map.empty | Some ts \<Rightarrow> ts"
  from assms(3) have "?ts (memberId s) = None"
    by (simp split: option.splits)
  then have "merge_suggestion ?ts s = s" by (rule merge_suggestion_absent)
  with assms(2) have b: "s \<in> set (suggestions (merge_task scores task))"
    by (force simp: merge_task_def Let_def)
  have a: "merge_task scores task \<in> set (load_tasks tasks scores)"
    using assms(1) by (simp add: load_tasks_def)
  have c: "with_combined members s \<in> set (sortedSuggestions members (merge_task scores task))"
    using b by (simp add: sortedSuggestions_def set_js_sort)
  have d: "combined (with_combined members s)
           = getCombinedScore (skillMatchPct s)
               (case find_member members (memberId s) of
                  None \<Rightarrow> 0 | Some m \<Rightarrow> calendarPct (dataSources m))"
    by (simp add: with_combined_def Let_def)
  from a b c d show ?thesis by blast
qed

theorem missing_score_keeps_own_value_witness:
  "task_001 \<in> set [task_001] \<and> suggest_jordan \<in> set (suggestions task_001)
   \<and> (case Map.empty (task_id task_001) of None \<Rightarrow> None
        | Some ts \<Rightarrow> ts (memberId suggest_jordan)) = (None :: ScoredEntry option)
   \<and> merge_task Map.empty task_001 \<in> set (load_tasks [task_001] Map.empty)
   \<and> suggest_jordan \<in> set (suggestions (merge_task Map.empty task_001))
   \<and> with_combined (Some [jordan_lee]) suggest_jordan
        \<in> set (sortedSuggestions (Some [jordan_lee]) (merge_task Map.empty task_001))
   \<and> combined (with_combined (Some [jordan_lee]) suggest_jordan)
        = getCombinedScore (skillMatchPct suggest_jordan)
            (case find_member (Some [jordan_lee]) (memberId suggest_jordan) of
               None \<Rightarrow> 0 | Some m \<Rightarrow> calendarPct (dataSources m))"
proof -
  have h1: "task_001 \<in> set [task_001]" by simp
  have h2: "suggest_jordan \<in> set (suggestions task_001)" by (simp add: task_001_def)
  have h3: "(case Map.empty (task_id task_001) of None \<Rightarrow> None
        | Some ts \<Rightarrow> ts (memberId suggest_jordan)) = (None :: ScoredEntry option)" by simp
  from missing_score_keeps_own_value [OF h1 h2 h3, of "Some [jordan_lee]"] h1 h2 h3
  show ?thesis by blast
qed

text \<open>
  C9 as stated fails: with no score for the pair of task-001 and mem-1, the ranked list
  holds the score computed from the suggestion's own 90, which is not the score that a
  skill match of 0 gives.
\<close>

theorem missing_score_not_zero:
  "map combined (concat (map (sortedSuggestions (Some [jordan_lee]))
       (load_tasks [task_001\<lparr>suggestions := [suggest_jordan]\<rparr>] Map.empty)))
     = [getCombinedScore 90 71]
   \<and> getCombinedScore 90 71 \<noteq> getCombinedScore 0 71"
  by (simp add: missing_score_example getCombinedScore_90_71 getCombinedScore_0_71)

text \<open>
  C10. A suggestion whose member is not in the roster takes part in the scoring and the
  sorting, with the calendar percentage 0, and no row is rendered for its member,
  whatever the store and the tasks. Where the task is the selected one and is neither
  covered nor being re-scored, the rendered rows are the ranked suggestions whose member
  is in the roster, in ranked order, each with its position in the ranked list as its
  rank; where it is covered or being re-scored no row is rendered at all.
\<close>

theorem unknown_member_not_rendered:
  assumes "s \<in> set (suggestions task)" and "find_member members (memberId s) = None"
  shows "with_combined members s \<in> set (sortedSuggestions members task)
       \<and> combined (with_combined members s) = getCombinedScore (skillMatchPct s) 0
       \<and> (\<forall>store tasks. \<forall>r \<in> set (rendered_rows store tasks members).
             memberId (row_suggestion r) \<noteq> memberId s)
       \<and> (\<forall>store ts.
             selectedTaskId store = Some (task_id task) \<and> task_id task \<noteq> []
           \<and> List.find (\<lambda>t. task_id t = task_id task) ts = Some task \<longrightarrow>
             (let isCovered = ((case taskStatusOverrides store (task_id task) of
                                  None \<Rightarrow> status task | Some st \<Rightarrow> st) = Covered);
                  isRunning = (case pipelineRunning store (task_id task) of
                                 None \<Rightarrow> False | Some b \<Rightarrow> b)
              in map (\<lambda>r. (row_rank r, row_suggestion r)) (rendered_rows store (Some ts) members)
                 = (if \<not> isCovered \<and> \<not> isRunning
                    then filter (\<lambda>(i, r). find_member members (memberId r) \<noteq> None)
                           (enumerate 0 (sortedSuggestions members task))
                    else [])))"
proof -
  have a: "with_combined members s \<in> set (sortedSuggestions members task)"
    using assms(1) by (simp add: sortedSuggestions_props(3))
  have b: "combined (with_combined members s) = getCombinedScore (skillMatchPct s) 0"
    using assms(2) by (simp add: with_combined_def)
  have c: "memberId (row_suggestion r) \<noteq> memberId s"
    if "r \<in> set (rendered_rows store tasks members)" for r store tasks
    using rendered_rows_found [OF that] assms(2) by auto
  have d: "map (\<lambda>r. (row_rank r, row_suggestion r)) (rendered_rows store (Some ts) members)
           = (if \<not> (case taskStatusOverrides store (task_id task) of
                        None \<Rightarrow> status task | Some st \<Rightarrow> st) = Covered
                 \<and> \<not> (case pipelineRunning store (task_id task) of
                         None \<Rightarrow> False | Some b \<Rightarrow> b)
              then filter (\<lambda>(i, r). find_member members (memberId r) \<noteq> None)
                     (enumerate 0 (sortedSuggestions members task))
              else [])"
    if sel: "selectedTaskId store = Some (task_id task)" and ne: "task_id task \<noteq> []"
      and f: "List.find (\<lambda>t. task_id t = task_id task) ts = Some task" for store ts
  proof -
    have f': "List.find (\<lambda>t. task_id t = task_id task)
                (case Some ts of None \<Rightarrow> [] | Some ts \<Rightarrow> ts) = Some task"
      using f by simp
    show ?thesis
    proof (cases "(case taskStatusOverrides store (task_id task) of
                     None \<Rightarrow> status task | Some st \<Rightarrow> st) \<noteq> Covered
                 \<and> \<not> (case pipelineRunning store (task_id task) of
                         None \<Rightarrow> False | Some b \<Rightarrow> b)")
      case True
      then have "rendered_rows store (Some ts) members
          = List.map_filter (\<lambda>r. r) (suggestion_rows members (sortedSuggestions members task))"
        by (intro rendered_rows_shown [OF sel ne f']) simp_all
      with True show ?thesis by (simp only: ranked_rows) simp
    next
      case False
      then have "rendered_rows store (Some ts) members = []"
        by (intro rendered_rows_hidden [OF sel f']) auto
      with False show ?thesis by auto
    qed
  qed
  from a b c d show ?thesis unfolding Let_def by blast
qed

theorem unknown_member_not_rendered_witness:
  "suggest_unknown \<in> set (suggestions task_002)
   \<and> find_member (Some [jordan_lee, sam_ortiz]) (memberId suggest_unknown) = None
   \<and> selectedTaskId store_002 = Some (task_id task_002) \<and> task_id task_002 \<noteq> []
   \<and> List.find (\<lambda>t. task_id t = task_id task_002) [task_001, task_002] = Some task_002
   \<and> with_combined (Some [jordan_lee, sam_ortiz]) suggest_unknown
        \<in> set (sortedSuggestions (Some [jordan_lee, sam_ortiz]) task_002)
   \<and> combined (with_combined (Some [jordan_lee, sam_ortiz]) suggest_unknown)
        = getCombinedScore (skillMatchPct suggest_unknown) 0
   \<and> list_all (\<lambda>r. memberId (row_suggestion r) \<noteq> memberId suggest_unknown)
        (rendered_rows store_002 (Some [task_001, task_002]) (Some [jordan_lee, sam_ortiz]))
   \<and> map memberId (sortedSuggestions (Some [jordan_lee, sam_ortiz]) task_002)
        = [''mem-1'', ''mem-9'', ''mem-4'']
   \<and> map (\<lambda>r. (row_rank r, memberId (row_suggestion r), tm_id (row_member r)))
        (rendered_rows store_002 (Some [task_001, task_002]) (Some [jordan_lee, sam_ortiz]))
        = [(0, ''mem-1'', ''mem-1''), (2, ''mem-4'', ''mem-4'')]
   \<and> map (\<lambda>r. (row_rank r, row_suggestion r))
        (rendered_rows store_002 (Some [task_001, task_002]) (Some [jordan_lee, sam_ortiz]))
        = filter (\<lambda>(i, r). find_member (Some [jordan_lee, sam_ortiz]) (memberId r) \<noteq> None)
            (enumerate 0 (sortedSuggestions (Some [jordan_lee, sam_ortiz]) task_002))
   \<and> rendered_rows store_covered (Some [task_001, task_002]) (Some [jordan_lee, sam_ortiz]) = []"
proof -
  have h1: "suggest_unknown \<in> set (suggestions task_002)"
    by (simp add: task_002_def)
  have h2: "find_member (Some [jordan_lee, sam_ortiz]) (memberId suggest_unknown) = None"
    by (simp add: find_member_def jordan_lee_def sam_ortiz_def suggest_unknown_def)
  have h3: "selectedTaskId store_002 = Some (task_id task_002) \<and> task_id task_002 \<noteq> []
      \<and> List.find (\<lambda>t. task_id t = task_id task_002) [task_001, task_002] = Some task_002"
    by (simp add: store_002_def task_002_def task_001_def)
  have g: "(case taskStatusOverrides store_002 (task_id task_002) of
              None \<Rightarrow> status task_002 | Some st \<Rightarrow> st) \<noteq> Covered
         \<and> \<not> (case pipelineRunning store_002 (task_id task_002) of
                 None \<Rightarrow> False | Some b \<Rightarrow> b)"
    by (simp add: store_002_def task_002_def)
  note t = unknown_member_not_rendered [OF h1 h2]
  from t h3 have shown:
    "(let isCovered = ((case taskStatusOverrides store_002 (task_id task_002) of
                          None \<Rightarrow> status task_002 | Some st \<Rightarrow> st) = Covered);
          isRunning = (case pipelineRunning store_002 (task_id task_002) of
                         None \<Rightarrow> False | Some b \<Rightarrow> b)
      in map (\<lambda>r. (row_rank r, row_suggestion r))
           (rendered_rows store_002 (Some [task_001, task_002]) (Some [jordan_lee, sam_ortiz]))
         = (if \<not> isCovered \<and> \<not> isRunning
            then filter (\<lambda>(i, r). find_member (Some [jordan_lee, sam_ortiz]) (memberId r) \<noteq> None)
                   (enumerate 0 (sortedSuggestions (Some [jordan_lee, sam_ortiz]) task_002))
            else []))"
    by blast
  have rows: "map (\<lambda>r. (row_rank r, row_suggestion r))
        (rendered_rows store_002 (Some [task_001, task_002]) (Some [jordan_lee, sam_ortiz]))
        = filter (\<lambda>(i, r). find_member (Some [jordan_lee, sam_ortiz]) (memberId r) \<noteq> None)
            (enumerate 0 (sortedSuggestions (Some [jordan_lee, sam_ortiz]) task_002))"
    using shown g unfolding Let_def by simp
  from t have "\<forall>r \<in> set (rendered_rows store_002 (Some [task_001, task_002])
                       (Some [jordan_lee, sam_ortiz])).
                 memberId (row_suggestion r) \<noteq> memberId suggest_unknown"
    by blast
  then have none: "list_all (\<lambda>r. memberId (row_suggestion r) \<noteq> memberId suggest_unknown)
        (rendered_rows store_002 (Some [task_001, task_002]) (Some [jordan_lee, sam_ortiz]))"
    unfolding list_all_iff .
  from t h1 h2 h3 none rows ranked_example rendered_example covered_example
  show ?thesis by blast
qed

end
